theory Spec2Isabelle
  imports Main "HOL-Library.Multiset" "HOL-Library.Word"
begin

section \<open>The LRU cache of \<open>LRU Cache.h\<close>\<close>

text \<open>
  The class template \<open>LRU_Cache<Key, Value>\<close> keeps a \<open>std::list<Key>\<close> (front = most
  recently used) and a \<open>std::unordered_map<Key, std::pair<Value, list::iterator>>\<close>.

  \<^item> A list iterator is the address of a list node.  Nodes are natural numbers; the list is
    the sequence of its nodes, each with its address and its key.  \<open>push_front\<close> allocates
    an address that no node of the list has; address \<open>0\<close> is the singular (default
    constructed) iterator.
  \<^item> A map iterator is modelled by the key it was found with; \<open>iter == m_map.end()\<close> is
    \<open>m_map s key = None\<close>.
  \<^item> Undefined behaviour of the standard containers (reading the back of an empty list,
    erasing through an iterator that is no node of the list, dereferencing \<open>end()\<close>) is an
    \<open>error\<close> value: the call does not return.
  \<^item> \<open>size_t\<close> is \<open>nat\<close>: the sizes compared are numbers of elements held in memory.
  \<^item> The deletor is \<open>std::function<void(const Value&)>\<close>, run for its effect only.  The
    model records whether one is configured and logs the argument of each call.
\<close>

subsection \<open>Data\<close>

type_synonym node = nat

datatype error =
  Empty_List          \<comment> \<open>\<open>back()\<close> or \<open>pop_back()\<close> on an empty \<open>std::list\<close>\<close>
| End_Iterator        \<comment> \<open>a map iterator equal to \<open>end()\<close> is dereferenced or erased\<close>
| Invalid_Iterator    \<comment> \<open>\<open>std::list::erase\<close> through an iterator that is no node of the list\<close>

text \<open>
  What the template arguments contribute.  Line 57 of the header builds the stored pair as
  \<open>std::pair<Key, list::iterator>(val, m_list.begin())\<close> and assigns it to the map's
  \<open>std::pair<Value, list::iterator>\<close>: the value passes through \<open>Key\<close> on its way in.
  \<open>Value_init\<close> is \<open>Value()\<close>.
\<close>

record ('k, 'v) template_args =
  Key_of_Value :: "'v \<Rightarrow> 'k"
  Value_of_Key :: "'k \<Rightarrow> 'v"
  Value_init :: "'v"

text \<open>The instantiations with \<open>Key = Value\<close>, such as \<open>LRU_Cache<int, int>\<close> of \<open>main.cpp\<close>.\<close>

definition same_types :: "'a \<Rightarrow> ('a, 'a) template_args" where
  "same_types d = \<lparr>Key_of_Value = (\<lambda>v. v), Value_of_Key = (\<lambda>k. k), Value_init = d\<rparr>"

text \<open>An instantiation where \<open>Key\<close> is narrower than \<open>Value\<close>: \<open>LRU_Cache<uint8_t, uint32_t>\<close>.\<close>

definition narrow_key :: "(8 word, 32 word) template_args" where
  "narrow_key = \<lparr>Key_of_Value = ucast, Value_of_Key = ucast, Value_init = 0\<rparr>"

record ('k, 'v) cache =
  m_list :: "(node \<times> 'k) list"
  m_map :: "'k \<rightharpoonup> ('v \<times> node)"
  m_capacity :: nat
  m_create_callback :: "('k \<Rightarrow> 'v) option"
  m_delete_callback :: bool
  deleted :: "'v list"   \<comment> \<open>the arguments of the deletor's calls so far, oldest first\<close>

subsection \<open>The standard list\<close>

definition null_node :: node where
  "null_node = 0"

definition fresh_node :: "(node \<times> 'k) list \<Rightarrow> node" where
  "fresh_node l = Suc (foldr max (map fst l) 0)"

definition push_front :: "'k \<Rightarrow> (node \<times> 'k) list \<Rightarrow> (node \<times> 'k) list" where
  "push_front key l = (fresh_node l, key) # l"

definition list_begin :: "(node \<times> 'k) list \<Rightarrow> node" where
  "list_begin l = (case l of [] \<Rightarrow> null_node | n # _ \<Rightarrow> fst n)"

definition list_erase :: "node \<Rightarrow> (node \<times> 'k) list \<Rightarrow> error + (node \<times> 'k) list" where
  "list_erase pos l =
     (if pos \<in> set (map fst l) then Inr (filter (\<lambda>n. fst n \<noteq> pos) l)
      else Inl Invalid_Iterator)"

subsection \<open>The member functions\<close>

definition LRU_Cache :: "nat \<Rightarrow> ('k \<Rightarrow> 'v) option \<Rightarrow> bool \<Rightarrow> ('k, 'v) cache" where
  "LRU_Cache sz creator deletor =
     \<lparr>m_list = [], m_map = Map.empty, m_capacity = sz,
      m_create_callback = creator, m_delete_callback = deletor, deleted = []\<rparr>"

definition empty_lru :: "('k, 'v) cache \<Rightarrow> bool" where
  "empty_lru s = (dom (m_map s) = {})"

definition size_lru :: "('k, 'v) cache \<Rightarrow> nat" where
  "size_lru s = card (dom (m_map s))"

definition capacity :: "('k, 'v) cache \<Rightarrow> nat" where
  "capacity s = m_capacity s"

text \<open>\<open>if (m_delete_callback) m_delete_callback(v);\<close>\<close>

definition call_deletor :: "('k, 'v) cache \<Rightarrow> 'v \<Rightarrow> ('k, 'v) cache" where
  "call_deletor s v = (if m_delete_callback s then s\<lparr>deleted := deleted s @ [v]\<rparr> else s)"

definition map_erase :: "('k, 'v) cache \<Rightarrow> 'k \<Rightarrow> error + ('k, 'v) cache" where
  "map_erase s pos =
     (case m_map s pos of
        None \<Rightarrow> Inl End_Iterator
      | Some (v, _) \<Rightarrow> Inr ((call_deletor s v)\<lparr>m_map := (m_map s)(pos := None)\<rparr>))"

definition erase_oldest :: "('k, 'v) cache \<Rightarrow> error + ('k, 'v) cache" where
  "erase_oldest s =
     (if m_list s = [] then Inl Empty_List
      else let key = snd (last (m_list s));
               s1 = s\<lparr>m_list := butlast (m_list s)\<rparr>
           in map_erase s1 key)"

definition make_space :: "('k, 'v) cache \<Rightarrow> error + ('k, 'v) cache" where
  "make_space s = (if size_lru s = m_capacity s then erase_oldest s else Inr s)"

definition insert_lru ::
  "('k, 'v) template_args \<Rightarrow> ('k, 'v) cache \<Rightarrow> 'k \<Rightarrow> 'v \<Rightarrow> error + (bool \<times> ('k, 'v) cache)" where
  "insert_lru T s key val =
     (if m_map s key = None then
        (case make_space s of
           Inl e \<Rightarrow> Inl e
         | Inr s1 \<Rightarrow>
             let l = push_front key (m_list s1)
             in Inr (True, s1\<lparr>m_list := l,
                    m_map := (m_map s1)(key \<mapsto> (Value_of_Key T (Key_of_Value T val), list_begin l))\<rparr>))
      else Inr (False, s))"

text \<open>\<open>void touch(map_iterator& iter)\<close>\<close>

definition touch_iter :: "('k, 'v) cache \<Rightarrow> 'k \<Rightarrow> error + ('k, 'v) cache" where
  "touch_iter s iter =
     (case m_map s iter of
        None \<Rightarrow> Inl End_Iterator
      | Some (v, listRef) \<Rightarrow>
          (case list_erase listRef (m_list s) of
             Inl e \<Rightarrow> Inl e
           | Inr l1 \<Rightarrow>
               let l2 = push_front iter l1
               in Inr (s\<lparr>m_list := l2, m_map := (m_map s)(iter \<mapsto> (v, list_begin l2))\<rparr>)))"

text \<open>\<open>bool touch(const Key& key)\<close>\<close>

definition touch :: "('k, 'v) cache \<Rightarrow> 'k \<Rightarrow> error + (bool \<times> ('k, 'v) cache)" where
  "touch s key =
     (if m_map s key \<noteq> None then
        (case touch_iter s key of Inl e \<Rightarrow> Inl e | Inr s1 \<Rightarrow> Inr (True, s1))
      else Inr (False, s))"

text \<open>\<open>void assign(map_iterator& iter, const Value& val)\<close>\<close>

definition assign_iter :: "('k, 'v) cache \<Rightarrow> 'k \<Rightarrow> 'v \<Rightarrow> error + ('k, 'v) cache" where
  "assign_iter s iter val =
     (case m_map s iter of
        None \<Rightarrow> Inl End_Iterator
      | Some (old, _) \<Rightarrow>
          (case touch_iter (call_deletor s old) iter of
             Inl e \<Rightarrow> Inl e
           | Inr s1 \<Rightarrow>
               (case m_map s1 iter of
                  None \<Rightarrow> Inl End_Iterator
                | Some (_, listRef) \<Rightarrow> Inr (s1\<lparr>m_map := (m_map s1)(iter \<mapsto> (val, listRef))\<rparr>))))"

text \<open>\<open>bool assign(const Key& key, const Value& value)\<close>\<close>

definition assign :: "('k, 'v) cache \<Rightarrow> 'k \<Rightarrow> 'v \<Rightarrow> error + (bool \<times> ('k, 'v) cache)" where
  "assign s key val =
     (if m_map s key \<noteq> None then
        (case assign_iter s key val of Inl e \<Rightarrow> Inl e | Inr s1 \<Rightarrow> Inr (True, s1))
      else Inr (False, s))"

definition insert_or_assign ::
  "('k, 'v) template_args \<Rightarrow> ('k, 'v) cache \<Rightarrow> 'k \<Rightarrow> 'v \<Rightarrow> error + ('k, 'v) cache" where
  "insert_or_assign T s key val =
     (if m_map s key \<noteq> None then assign_iter s key val
      else (case insert_lru T s key val of Inl e \<Rightarrow> Inl e | Inr (_, s1) \<Rightarrow> Inr s1))"

definition contains :: "('k, 'v) cache \<Rightarrow> 'k \<Rightarrow> bool" where
  "contains s key = (m_map s key \<noteq> None)"

text \<open>\<open>at\<close> is not a \<open>const\<close> member: it returns the cache as it leaves it.\<close>

definition at :: "('k, 'v) cache \<Rightarrow> 'k \<Rightarrow> 'v option \<times> ('k, 'v) cache" where
  "at s key = (case m_map s key of Some (v, _) \<Rightarrow> (Some v, s) | None \<Rightarrow> (None, s))"

text \<open>\<open>m_map[key]\<close>: a missing key is added with a value-initialised pair.\<close>

definition map_subscript :: "('k, 'v) template_args \<Rightarrow> ('k, 'v) cache \<Rightarrow> 'k \<Rightarrow> 'v \<times> ('k, 'v) cache" where
  "map_subscript T s key =
     (case m_map s key of
        Some (v, _) \<Rightarrow> (v, s)
      | None \<Rightarrow> (Value_init T, s\<lparr>m_map := (m_map s)(key \<mapsto> (Value_init T, null_node))\<rparr>))"

definition get :: "('k, 'v) template_args \<Rightarrow> ('k, 'v) cache \<Rightarrow> 'k \<Rightarrow> error + ('v \<times> ('k, 'v) cache)" where
  "get T s key =
     (if m_map s key \<noteq> None then
        (case touch s key of
           Inl e \<Rightarrow> Inl e
         | Inr (_, s1) \<Rightarrow>
             (case m_map s1 key of None \<Rightarrow> Inl End_Iterator | Some (v, _) \<Rightarrow> Inr (v, s1)))
      else
        (case insert_lru T s key
                (case m_create_callback s of Some creator \<Rightarrow> creator key | None \<Rightarrow> Value_init T) of
           Inl e \<Rightarrow> Inl e
         | Inr (_, s1) \<Rightarrow> Inr (map_subscript T s1 key)))"

definition erase :: "('k, 'v) cache \<Rightarrow> 'k \<Rightarrow> error + (bool \<times> ('k, 'v) cache)" where
  "erase s key =
     (case m_map s key of
        Some (_, listRef) \<Rightarrow>
          (case list_erase listRef (m_list s) of
             Inl e \<Rightarrow> Inl e
           | Inr l \<Rightarrow>
               (case map_erase (s\<lparr>m_list := l\<rparr>) key of
                  Inl e \<Rightarrow> Inl e
                | Inr s1 \<Rightarrow> Inr (True, s1)))
      | None \<Rightarrow> Inr (False, s))"

text \<open>
  The loop of \<open>trim\<close>: \<open>do { erase_oldest(); } while (m_list.size() > m_capacity);\<close>.
  Each round that returns has removed the last node of the list.
\<close>

function trim_loop :: "('k, 'v) cache \<Rightarrow> error + ('k, 'v) cache" where
  "trim_loop s =
     (case erase_oldest s of
        Inl e \<Rightarrow> Inl e
      | Inr s1 \<Rightarrow> if length (m_list s1) > m_capacity s1 then trim_loop s1 else Inr s1)"
  by pat_completeness auto

termination trim_loop
  by (relation "measure (\<lambda>s. length (m_list s))")
     (auto simp: erase_oldest_def map_erase_def call_deletor_def Let_def
           split: if_splits option.splits prod.splits)

declare trim_loop.simps [simp del]

definition trim :: "('k, 'v) cache \<Rightarrow> error + (bool \<times> ('k, 'v) cache)" where
  "trim s =
     (if size_lru s \<le> m_capacity s then Inr (False, s)
      else (case trim_loop s of Inl e \<Rightarrow> Inl e | Inr s1 \<Rightarrow> Inr (True, s1)))"

definition clear :: "('k, 'v) cache \<Rightarrow> error + ('k, 'v) cache" where
  "clear s =
     (let orig_capacity = m_capacity s
      in (case trim (s\<lparr>m_capacity := 0\<rparr>) of
            Inl e \<Rightarrow> Inl e
          | Inr (_, s1) \<Rightarrow> Inr (s1\<lparr>m_capacity := orig_capacity\<rparr>)))"

definition resize :: "('k, 'v) cache \<Rightarrow> nat \<Rightarrow> error + ('k, 'v) cache" where
  "resize s newSize =
     (case trim (s\<lparr>m_capacity := newSize\<rparr>) of Inl e \<Rightarrow> Inl e | Inr (_, s1) \<Rightarrow> Inr s1)"

definition setCreateCallback :: "('k, 'v) cache \<Rightarrow> ('k \<Rightarrow> 'v) option \<Rightarrow> ('k, 'v) cache" where
  "setCreateCallback s callback = s\<lparr>m_create_callback := callback\<rparr>"

definition setDeleteCallback :: "('k, 'v) cache \<Rightarrow> bool \<Rightarrow> ('k, 'v) cache" where
  "setDeleteCallback s callback = s\<lparr>m_delete_callback := callback\<rparr>"

text \<open>
  The destructor calls the deletor on every entry of \<open>m_map\<close>, in the iteration order of
  the unordered map.  That order is the argument \<open>order\<close>: any enumeration of the keys.
\<close>

fun destructor :: "'k list \<Rightarrow> ('k, 'v) cache \<Rightarrow> ('k, 'v) cache" where
  "destructor [] s = s"
| "destructor (key # order) s =
     destructor order (case m_map s key of Some (v, _) \<Rightarrow> call_deletor s v | None \<Rightarrow> s)"

text \<open>
  \<open>LRU_Cache(std::initializer_list<std::pair<Key, Value>> il)\<close>: delegates to the first
  constructor with \<open>il.size()\<close> and the default arguments, then loads the pairs.
\<close>

fun load :: "('k, 'v) template_args \<Rightarrow> ('k, 'v) cache \<Rightarrow> ('k \<times> 'v) list \<Rightarrow> error + ('k, 'v) cache" where
  "load T s [] = Inr s"
| "load T s (i # il) =
     (case insert_or_assign T s (fst i) (snd i) of Inl e \<Rightarrow> Inl e | Inr s1 \<Rightarrow> load T s1 il)"

definition LRU_Cache_il :: "('k, 'v) template_args \<Rightarrow> ('k \<times> 'v) list \<Rightarrow> error + ('k, 'v) cache" where
  "LRU_Cache_il T il = load T (LRU_Cache (length il) None False) il"

subsection \<open>Sequences of calls\<close>

datatype ('k, 'v) operation =
  Insert 'k 'v | Insert_or_assign 'k 'v | Assign 'k 'v | Get 'k | Touch 'k
| At 'k | Contains 'k | Erase 'k | Resize nat | Clear

datatype 'v returned = Bool bool | Ref 'v | Optional "'v option" | Void

fun call ::
  "('k, 'v) template_args \<Rightarrow> ('k, 'v) cache \<Rightarrow> ('k, 'v) operation \<Rightarrow> error + ('v returned \<times> ('k, 'v) cache)" where
  "call T s (Insert k v) =
     (case insert_lru T s k v of Inl e \<Rightarrow> Inl e | Inr (b, s1) \<Rightarrow> Inr (Bool b, s1))"
| "call T s (Insert_or_assign k v) =
     (case insert_or_assign T s k v of Inl e \<Rightarrow> Inl e | Inr s1 \<Rightarrow> Inr (Void, s1))"
| "call T s (Assign k v) =
     (case assign s k v of Inl e \<Rightarrow> Inl e | Inr (b, s1) \<Rightarrow> Inr (Bool b, s1))"
| "call T s (Get k) =
     (case get T s k of Inl e \<Rightarrow> Inl e | Inr (v, s1) \<Rightarrow> Inr (Ref v, s1))"
| "call T s (Touch k) =
     (case touch s k of Inl e \<Rightarrow> Inl e | Inr (b, s1) \<Rightarrow> Inr (Bool b, s1))"
| "call T s (At k) = (case at s k of (r, s1) \<Rightarrow> Inr (Optional r, s1))"
| "call T s (Contains k) = Inr (Bool (contains s k), s)"
| "call T s (Erase k) =
     (case erase s k of Inl e \<Rightarrow> Inl e | Inr (b, s1) \<Rightarrow> Inr (Bool b, s1))"
| "call T s (Resize n) =
     (case resize s n of Inl e \<Rightarrow> Inl e | Inr s1 \<Rightarrow> Inr (Void, s1))"
| "call T s Clear =
     (case clear s of Inl e \<Rightarrow> Inl e | Inr s1 \<Rightarrow> Inr (Void, s1))"

text \<open>A sequence of calls runs until one of them fails; the cache after the last call.\<close>

fun calls ::
  "('k, 'v) template_args \<Rightarrow> ('k, 'v) cache \<Rightarrow> ('k, 'v) operation list \<Rightarrow> error + ('k, 'v) cache" where
  "calls T s [] = Inr s"
| "calls T s (c # cs) =
     (case call T s c of Inl e \<Rightarrow> Inl e | Inr (_, s1) \<Rightarrow> calls T s1 cs)"

subsection \<open>Views of the state\<close>

text \<open>The recency sequence: the keys of the list, most recently used first.\<close>

definition recency :: "('k, 'v) cache \<Rightarrow> 'k list" where
  "recency s = map snd (m_list s)"

text \<open>The value the index holds for a key.\<close>

definition stored :: "('k, 'v) cache \<Rightarrow> 'k \<rightharpoonup> 'v" where
  "stored s key = map_option fst (m_map s key)"

text \<open>What a caller can observe of a cache: everything but the addresses of the list nodes.\<close>

definition abstract ::
  "('k, 'v) cache \<Rightarrow> 'k list \<times> ('k \<rightharpoonup> 'v) \<times> nat \<times> ('k \<Rightarrow> 'v) option \<times> bool \<times> 'v list" where
  "abstract s =
     (recency s, stored s, m_capacity s, m_create_callback s, m_delete_callback s, deleted s)"

text \<open>
  The two containers agree: no two nodes share an address or a key, every entry of the
  index refers to the node of its key, and every key of the list is in the index.
\<close>

definition consistent :: "('k, 'v) cache \<Rightarrow> bool" where
  "consistent s \<longleftrightarrow>
     distinct (map fst (m_list s)) \<and> distinct (map snd (m_list s)) \<and>
     (\<forall>key. case m_map s key of
              None \<Rightarrow> key \<notin> set (map snd (m_list s))
            | Some (v, listRef) \<Rightarrow> (listRef, key) \<in> set (m_list s))"

text \<open>The values held, with multiplicity: one for each key of the recency sequence.\<close>

definition held :: "('k, 'v) cache \<Rightarrow> 'v multiset" where
  "held s = mset (List.map_filter (stored s) (recency s))"

text \<open>
  The value a call hands over to the cache in state \<open>s\<close>, if any: the value that \<open>insert\<close>
  stores for an absent key, the value that \<open>assign\<close> installs for a present key, the value
  that \<open>get\<close> makes for an absent key.
\<close>

fun entering :: "('k, 'v) template_args \<Rightarrow> ('k, 'v) cache \<Rightarrow> ('k, 'v) operation \<Rightarrow> 'v multiset" where
  "entering T s (Insert k v) =
     (if contains s k then {#} else {#Value_of_Key T (Key_of_Value T v)#})"
| "entering T s (Insert_or_assign k v) =
     (if contains s k then {#v#} else {#Value_of_Key T (Key_of_Value T v)#})"
| "entering T s (Assign k v) = (if contains s k then {#v#} else {#})"
| "entering T s (Get k) =
     (if contains s k then {#}
      else {#Value_of_Key T (Key_of_Value T
              (case m_create_callback s of Some creator \<Rightarrow> creator k | None \<Rightarrow> Value_init T))#})"
| "entering T s _ = {#}"

text \<open>The values handed over in the course of a sequence of calls.\<close>

fun entered :: "('k, 'v) template_args \<Rightarrow> ('k, 'v) cache \<Rightarrow> ('k, 'v) operation list \<Rightarrow> 'v multiset" where
  "entered T s [] = {#}"
| "entered T s (c # cs) =
     (case call T s c of Inl e \<Rightarrow> {#} | Inr (_, s1) \<Rightarrow> entering T s c + entered T s1 cs)"

text \<open>
  \<open>leaves s ks m fired s1\<close>: a call on \<open>s\<close> leaves the cache \<open>s1\<close>, which is consistent, has
  the recency sequence \<open>ks\<close> and the index \<open>m\<close>, and the capacity and callbacks of \<open>s\<close>;
  a configured deletor has been called on the values \<open>fired\<close>, in this order.
\<close>

definition leaves ::
  "('k, 'v) cache \<Rightarrow> 'k list \<Rightarrow> ('k \<rightharpoonup> 'v) \<Rightarrow> 'v list \<Rightarrow> ('k, 'v) cache \<Rightarrow> bool" where
  "leaves s ks m fired s1 \<longleftrightarrow>
     consistent s1 \<and> recency s1 = ks \<and> stored s1 = m \<and>
     m_capacity s1 = m_capacity s \<and> m_create_callback s1 = m_create_callback s \<and>
     m_delete_callback s1 = m_delete_callback s \<and>
     deleted s1 = deleted s @ (if m_delete_callback s then fired else [])"

section \<open>The two containers stay consistent\<close>

text \<open>The definitions that evaluate a run of the model on a given cache.\<close>

lemmas lru_defs =
  same_types_def LRU_Cache_def LRU_Cache_il_def null_node_def fresh_node_def push_front_def
  list_begin_def list_erase_def size_lru_def capacity_def call_deletor_def map_erase_def
  erase_oldest_def make_space_def insert_lru_def touch_iter_def touch_def assign_iter_def
  assign_def insert_or_assign_def contains_def at_def map_subscript_def get_def erase_def
  trim_def trim_loop.simps clear_def resize_def recency_def stored_def Let_def

lemma fresh_node_greater: "n \<in> set (map fst l) \<Longrightarrow> n < fresh_node l"
  unfolding fresh_node_def by (induction l) (fastforce simp: less_Suc_eq_le max_def)+

lemma fresh_node_notin: "fresh_node l \<notin> set (map fst l)"
  using fresh_node_greater by blast

lemma fresh_node_not_null: "fresh_node l \<noteq> null_node"
  by (simp add: fresh_node_def null_node_def)

lemma list_begin_push_front: "list_begin (push_front k l) = fresh_node l"
  by (simp add: list_begin_def push_front_def)

lemma filter_node_keys:
  assumes "distinct (map snd l)" "distinct (map fst l)" "(r, k) \<in> set l"
  shows "filter (\<lambda>n. fst n \<noteq> r) l = filter (\<lambda>n. snd n \<noteq> k) l"
proof (rule filter_cong[OF refl])
  fix n assume n: "n \<in> set l"
  have "inj_on snd (set l)" "inj_on fst (set l)"
    using assms by (simp_all add: distinct_map)
  with n assms(3) show "(fst n \<noteq> r) = (snd n \<noteq> k)"
    by (metis fst_conv snd_conv inj_onD)
qed

lemma consistent_dom: "consistent s \<Longrightarrow> dom (m_map s) = set (recency s)"
proof -
  assume c: "consistent s"
  have "\<And>key. (key \<in> dom (m_map s)) = (key \<in> set (recency s))"
  proof -
    fix key
    from c have "case m_map s key of None \<Rightarrow> key \<notin> set (map snd (m_list s))
            | Some (v, listRef) \<Rightarrow> (listRef, key) \<in> set (m_list s)"
      unfolding consistent_def by blast
    then show "(key \<in> dom (m_map s)) = (key \<in> set (recency s))"
      by (cases "m_map s key") (force simp: recency_def)+
  qed
  then show ?thesis by blast
qed

lemma consistent_size: "consistent s \<Longrightarrow> size_lru s = length (m_list s)"
  using consistent_dom[of s] distinct_card[of "map snd (m_list s)"]
  by (simp add: size_lru_def consistent_def recency_def del: set_map)

lemma consistent_Some: "consistent s \<Longrightarrow> m_map s k = Some (v, r) \<Longrightarrow> (r, k) \<in> set (m_list s)"
  unfolding consistent_def by (metis (mono_tags, lifting) option.simps(5) case_prod_conv)

lemma consistent_None: "consistent s \<Longrightarrow> m_map s k = None \<Longrightarrow> k \<notin> set (recency s)"
  unfolding consistent_def recency_def by (metis (mono_tags, lifting) option.simps(4))

lemma consistent_node:
  assumes "consistent s" "(r, k) \<in> set (m_list s)"
  shows "\<exists>v. m_map s k = Some (v, r)"
proof (cases "m_map s k")
  case None
  with assms show ?thesis using consistent_None[of s k] by (force simp: recency_def)
next
  case (Some p)
  obtain v r' where p: "p = (v, r')" by (cases p)
  with Some assms(1) have "(r', k) \<in> set (m_list s)" by (simp add: consistent_Some)
  moreover have "inj_on snd (set (m_list s))"
    using assms(1) by (simp add: consistent_def distinct_map)
  ultimately have "r' = r" using assms(2) by (metis inj_onD snd_conv prod.inject)
  with Some p show ?thesis by simp
qed

lemma consistent_distinct: "consistent s \<Longrightarrow> distinct (recency s)"
  by (simp add: consistent_def recency_def)

lemma consistent_fields:
  "m_list s1 = m_list s \<Longrightarrow> m_map s1 = m_map s \<Longrightarrow> consistent s1 = consistent s"
  unfolding consistent_def by (simp split: option.split)

lemma consistent_push:
  assumes "consistent s" "k \<notin> set (recency s)"
  shows "consistent (s\<lparr>m_list := push_front k (m_list s),
                       m_map := (m_map s)(k \<mapsto> (v, fresh_node (m_list s)))\<rparr>)"
  unfolding consistent_def
proof (intro conjI allI)
  let ?s = "s\<lparr>m_list := push_front k (m_list s), m_map := (m_map s)(k \<mapsto> (v, fresh_node (m_list s)))\<rparr>"
  show "distinct (map fst (m_list ?s))"
    using assms(1) fresh_node_notin[of "m_list s"] by (simp add: consistent_def push_front_def)
  show "distinct (map snd (m_list ?s))"
    using assms by (simp add: consistent_def push_front_def recency_def)
  fix key
  show "case m_map ?s key of None \<Rightarrow> key \<notin> set (map snd (m_list ?s))
        | Some (v, listRef) \<Rightarrow> (listRef, key) \<in> set (m_list ?s)"
  proof (cases "key = k")
    case True
    then show ?thesis by (simp add: push_front_def)
  next
    case False
    show ?thesis
    proof (cases "m_map s key")
      case None
      with False consistent_None[OF assms(1) None] show ?thesis
        by (simp add: push_front_def recency_def)
    next
      case (Some p)
      with False consistent_Some[OF assms(1), of key "fst p" "snd p"] show ?thesis
        by (cases p) (simp add: push_front_def)
    qed
  qed
qed

lemma consistent_remove:
  assumes "consistent s"
  shows "consistent (s\<lparr>m_list := filter (\<lambda>n. snd n \<noteq> k) (m_list s), m_map := (m_map s)(k := None)\<rparr>)"
  unfolding consistent_def
proof (intro conjI allI)
  let ?s = "s\<lparr>m_list := filter (\<lambda>n. snd n \<noteq> k) (m_list s), m_map := (m_map s)(k := None)\<rparr>"
  show "distinct (map fst (m_list ?s))"
    using assms by (simp add: consistent_def distinct_map_filter)
  show "distinct (map snd (m_list ?s))"
    using assms by (simp add: consistent_def distinct_map_filter)
  fix key
  show "case m_map ?s key of None \<Rightarrow> key \<notin> set (map snd (m_list ?s))
        | Some (v, listRef) \<Rightarrow> (listRef, key) \<in> set (m_list ?s)"
  proof (cases "key = k")
    case True
    then show ?thesis by auto
  next
    case False
    show ?thesis
    proof (cases "m_map s key")
      case None
      with False consistent_None[OF assms(1) None] show ?thesis
        by (auto simp: recency_def)
    next
      case (Some p)
      with False consistent_Some[OF assms(1), of key "fst p" "snd p"] show ?thesis
        by (cases p) simp
    qed
  qed
qed

lemma filter_last_butlast:
  "distinct (map snd l) \<Longrightarrow> l \<noteq> [] \<Longrightarrow> filter (\<lambda>n. snd n \<noteq> snd (last l)) l = butlast l"
proof (induction l rule: rev_induct)
  case Nil
  then show ?case by simp
next
  case (snoc x xs)
  then have "snd x \<notin> snd ` set xs" by simp
  then have "\<forall>n\<in>set xs. snd n \<noteq> snd x" by (metis imageI)
  then show ?case by (simp add: filter_id_conv)
qed

lemma recency_filter:
  "map snd (filter (\<lambda>n. snd n \<noteq> k) l) = removeAll k (map snd l)"
  by (induction l) auto

lemma leaves_trans:
  "leaves s ks m f1 s1 \<Longrightarrow> leaves s1 ks' m' f2 s2 \<Longrightarrow> leaves s ks' m' (f1 @ f2) s2"
  by (simp add: leaves_def)

lemma leaves_front:
  assumes "consistent s"
  shows "leaves s (k # removeAll k (recency s)) ((stored s)(k \<mapsto> v)) []
           (s\<lparr>m_list := push_front k (filter (\<lambda>n. snd n \<noteq> k) (m_list s)),
              m_map := (m_map s)(k \<mapsto> (v, fresh_node (filter (\<lambda>n. snd n \<noteq> k) (m_list s))))\<rparr>)"
proof -
  let ?F = "filter (\<lambda>n. snd n \<noteq> k) (m_list s)"
  let ?s0 = "s\<lparr>m_list := ?F, m_map := (m_map s)(k := None)\<rparr>"
  have c0: "consistent ?s0" using assms by (rule consistent_remove)
  have "k \<notin> set (recency ?s0)" by (simp add: recency_def recency_filter)
  from consistent_push[OF c0 this, of v]
  have "consistent (s\<lparr>m_list := push_front k ?F, m_map := (m_map s)(k \<mapsto> (v, fresh_node ?F))\<rparr>)"
    by simp
  then show ?thesis
    by (auto simp: leaves_def recency_def push_front_def recency_filter stored_def)
qed

lemma leaves_remove:
  assumes "consistent s" "m_map s k = Some (v, r)"
  shows "leaves s (removeAll k (recency s)) ((stored s)(k := None)) [v]
           ((call_deletor (s\<lparr>m_list := filter (\<lambda>n. snd n \<noteq> k) (m_list s)\<rparr>) v)
              \<lparr>m_map := (m_map s)(k := None)\<rparr>)"
proof -
  let ?F = "filter (\<lambda>n. snd n \<noteq> k) (m_list s)"
  let ?s0 = "s\<lparr>m_list := ?F, m_map := (m_map s)(k := None)\<rparr>"
  let ?s1 = "(call_deletor (s\<lparr>m_list := ?F\<rparr>) v)\<lparr>m_map := (m_map s)(k := None)\<rparr>"
  have c0: "consistent ?s0" using assms(1) by (rule consistent_remove)
  have "consistent ?s1 = consistent ?s0"
    by (rule consistent_fields) (simp_all add: call_deletor_def)
  with c0 show ?thesis
    by (auto simp: leaves_def recency_def recency_filter stored_def call_deletor_def)
qed

lemma touch_iter_leaves:
  assumes "consistent s" "m_map s k = Some (v, r)"
  shows "\<exists>s1. touch_iter s k = Inr s1 \<and> leaves s (k # removeAll k (recency s)) (stored s) [] s1"
proof -
  have n: "(r, k) \<in> set (m_list s)" using assms by (rule consistent_Some)
  have f: "filter (\<lambda>n. fst n \<noteq> r) (m_list s) = filter (\<lambda>n. snd n \<noteq> k) (m_list s)"
    using assms(1) n by (intro filter_node_keys) (simp_all add: consistent_def)
  have "(stored s)(k \<mapsto> v) = stored s"
    using assms(2) by (auto simp: stored_def)
  with leaves_front[OF assms(1), of k v] n f assms(2) show ?thesis
    by (force simp: touch_iter_def list_erase_def list_begin_push_front Let_def)
qed

lemma erase_oldest_leaves:
  assumes "consistent s" "recency s \<noteq> []"
  shows "\<exists>s1 v. stored s (last (recency s)) = Some v \<and> erase_oldest s = Inr s1 \<and>
           leaves s (butlast (recency s)) ((stored s)(last (recency s) := None)) [v] s1"
proof -
  let ?k = "snd (last (m_list s))"
  have ne: "m_list s \<noteq> []" using assms(2) by (simp add: recency_def)
  then have k: "last (recency s) = ?k" by (simp add: recency_def last_map)
  have "(fst (last (m_list s)), ?k) \<in> set (m_list s)" using ne by simp
  from consistent_node[OF assms(1) this] obtain v
    where v: "m_map s ?k = Some (v, fst (last (m_list s)))" ..
  have b: "filter (\<lambda>n. snd n \<noteq> ?k) (m_list s) = butlast (m_list s)"
    using assms(1) ne by (intro filter_last_butlast) (simp_all add: consistent_def)
  have "removeAll ?k (recency s) = butlast (recency s)"
    using b recency_filter[of ?k "m_list s"] by (simp add: recency_def map_butlast)
  with leaves_remove[OF assms(1) v] b k v ne show ?thesis
    by (simp add: erase_oldest_def map_erase_def Let_def stored_def)
qed

lemma leaves_refl: "consistent s \<Longrightarrow> leaves s (recency s) (stored s) [] s"
  by (simp add: leaves_def)

lemma consistent_length: "consistent s \<Longrightarrow> size_lru s = length (recency s)"
  by (simp add: consistent_size recency_def)

lemma contains_recency: "consistent s \<Longrightarrow> contains s k = (k \<in> set (recency s))"
  using consistent_dom[of s] by (auto simp: contains_def dom_def)

lemma contains_stored: "contains s k = (stored s k \<noteq> None)"
  by (simp add: contains_def stored_def)

lemma push_leaves:
  assumes "consistent s" "m_map s k = None"
  shows "leaves s (k # recency s) ((stored s)(k \<mapsto> v)) []
           (s\<lparr>m_list := push_front k (m_list s),
              m_map := (m_map s)(k \<mapsto> (v, list_begin (push_front k (m_list s))))\<rparr>)"
proof -
  have k: "k \<notin> set (recency s)" using assms by (rule consistent_None)
  then have "filter (\<lambda>n. snd n \<noteq> k) (m_list s) = m_list s"
    by (auto simp: filter_id_conv recency_def)
  moreover from k have "removeAll k (recency s) = recency s" by simp
  ultimately show ?thesis
    using leaves_front[OF assms(1), of k v] by (simp add: list_begin_push_front)
qed

lemma insert_lru_room:
  assumes "consistent s" "m_map s k = None" "length (recency s) \<noteq> m_capacity s"
  shows "\<exists>s1. insert_lru T s k v = Inr (True, s1) \<and>
           leaves s (k # recency s) ((stored s)(k \<mapsto> Value_of_Key T (Key_of_Value T v))) [] s1"
  using assms push_leaves[OF assms(1,2)]
  by (simp add: insert_lru_def make_space_def consistent_length Let_def)

lemma insert_lru_full:
  assumes "consistent s" "m_map s k = None" "length (recency s) = m_capacity s" "recency s \<noteq> []"
  shows "\<exists>s1 old. stored s (last (recency s)) = Some old \<and> insert_lru T s k v = Inr (True, s1) \<and>
           leaves s (k # butlast (recency s))
             ((stored s)(last (recency s) := None, k \<mapsto> Value_of_Key T (Key_of_Value T v))) [old] s1"
proof -
  from erase_oldest_leaves[OF assms(1,4)] obtain s0 old where
    old: "stored s (last (recency s)) = Some old" and e: "erase_oldest s = Inr s0" and
    l0: "leaves s (butlast (recency s)) ((stored s)(last (recency s) := None)) [old] s0"
    by blast
  from l0 have c0: "consistent s0" and r0: "recency s0 = butlast (recency s)"
    and m0: "stored s0 = (stored s)(last (recency s) := None)"
    by (simp_all add: leaves_def)
  have "stored s0 k = None" using assms(2) m0 by (simp add: stored_def)
  then have k0: "m_map s0 k = None" by (simp add: stored_def)
  from push_leaves[OF c0 k0, of "Value_of_Key T (Key_of_Value T v)"] l0
  have "leaves s (k # butlast (recency s))
          ((stored s)(last (recency s) := None, k \<mapsto> Value_of_Key T (Key_of_Value T v))) [old]
          (s0\<lparr>m_list := push_front k (m_list s0),
              m_map := (m_map s0)(k \<mapsto> (Value_of_Key T (Key_of_Value T v),
                                          list_begin (push_front k (m_list s0))))\<rparr>)"
    using leaves_trans[OF l0] by (simp add: r0 m0)
  with old e assms show ?thesis
    by (simp add: insert_lru_def make_space_def consistent_length Let_def)
qed

lemma insert_lru_zero:
  assumes "consistent s" "m_map s k = None" "recency s = []" "m_capacity s = 0"
  shows "insert_lru T s k v = Inl Empty_List"
  using assms
  by (simp add: insert_lru_def make_space_def consistent_length erase_oldest_def recency_def)

lemma insert_lru_present: "m_map s k \<noteq> None \<Longrightarrow> insert_lru T s k v = Inr (False, s)"
  by (auto simp: insert_lru_def)

lemma set_value_leaves:
  assumes "consistent s" "m_map s k = Some (x, r)"
  shows "leaves s (recency s) ((stored s)(k \<mapsto> v)) [] (s\<lparr>m_map := (m_map s)(k \<mapsto> (v, r))\<rparr>)"
proof -
  have "consistent (s\<lparr>m_map := (m_map s)(k \<mapsto> (v, r))\<rparr>)"
    unfolding consistent_def
  proof (intro conjI allI)
    fix key
    show "case m_map (s\<lparr>m_map := (m_map s)(k \<mapsto> (v, r))\<rparr>) key of
            None \<Rightarrow> key \<notin> set (map snd (m_list (s\<lparr>m_map := (m_map s)(k \<mapsto> (v, r))\<rparr>)))
          | Some (v', listRef) \<Rightarrow> (listRef, key) \<in> set (m_list (s\<lparr>m_map := (m_map s)(k \<mapsto> (v, r))\<rparr>))"
    proof (cases "key = k")
      case True
      with consistent_Some[OF assms] show ?thesis by simp
    next
      case False
      show ?thesis
      proof (cases "m_map s key")
        case None
        with False consistent_None[OF assms(1) None] show ?thesis
          by (simp add: recency_def)
      next
        case (Some p)
        with False consistent_Some[OF assms(1), of key "fst p" "snd p"] show ?thesis
          by (cases p) simp
      qed
    qed
  qed (use assms(1) in \<open>simp_all add: consistent_def\<close>)
  then show ?thesis by (auto simp: leaves_def recency_def stored_def)
qed

lemma call_deletor_leaves:
  "consistent s \<Longrightarrow> leaves s (recency s) (stored s) [v] (call_deletor s v)"
proof -
  assume "consistent s"
  moreover have "consistent (call_deletor s v) = consistent s"
    by (rule consistent_fields) (simp_all add: call_deletor_def)
  ultimately show ?thesis
    by (auto simp: leaves_def call_deletor_def recency_def stored_def)
qed

lemma assign_iter_leaves:
  assumes "consistent s" "m_map s k = Some (old, r)"
  shows "\<exists>s1. assign_iter s k v = Inr s1 \<and>
           leaves s (k # removeAll k (recency s)) ((stored s)(k \<mapsto> v)) [old] s1"
proof -
  let ?s0 = "call_deletor s old"
  have l0: "leaves s (recency s) (stored s) [old] ?s0"
    using assms(1) by (rule call_deletor_leaves)
  then have c0: "consistent ?s0" by (simp add: leaves_def)
  have m0: "m_map ?s0 k = Some (old, r)" using assms(2) by (simp add: call_deletor_def)
  from touch_iter_leaves[OF c0 m0] obtain s1 where
    t: "touch_iter ?s0 k = Inr s1" and
    l1: "leaves ?s0 (k # removeAll k (recency ?s0)) (stored ?s0) [] s1" by blast
  from l0 l1 have l01: "leaves s (k # removeAll k (recency s)) (stored s) [old] s1"
    using leaves_trans[OF l0 l1] by (simp add: leaves_def)
  then have c1: "consistent s1" and st: "stored s1 = stored s" by (simp_all add: leaves_def)
  have "stored s1 k = Some old" using st assms(2) by (simp add: stored_def)
  then obtain r1 where m1: "m_map s1 k = Some (old, r1)" by (auto simp: stored_def)
  from set_value_leaves[OF c1 m1, of v] l01
  have "leaves s (k # removeAll k (recency s)) ((stored s)(k \<mapsto> v)) [old]
          (s1\<lparr>m_map := (m_map s1)(k \<mapsto> (v, r1))\<rparr>)"
    using leaves_trans[OF l01] by (simp add: leaves_def)
  with t m1 assms(2) show ?thesis by (simp add: assign_iter_def)
qed

lemma erase_leaves:
  assumes "consistent s" "m_map s k = Some (v, r)"
  shows "\<exists>s1. erase s k = Inr (True, s1) \<and>
           leaves s (removeAll k (recency s)) ((stored s)(k := None)) [v] s1"
proof -
  have n: "(r, k) \<in> set (m_list s)" using assms by (rule consistent_Some)
  have f: "filter (\<lambda>n. fst n \<noteq> r) (m_list s) = filter (\<lambda>n. snd n \<noteq> k) (m_list s)"
    using assms(1) n by (intro filter_node_keys) (simp_all add: consistent_def)
  from leaves_remove[OF assms] n f assms(2) show ?thesis
    by (force simp: erase_def list_erase_def map_erase_def)
qed

lemma touch_leaves:
  assumes "consistent s" "m_map s k = Some (v, r)"
  shows "\<exists>s1. touch s k = Inr (True, s1) \<and>
           leaves s (k # removeAll k (recency s)) (stored s) [] s1"
  using touch_iter_leaves[OF assms] assms(2) by (auto simp: touch_def)

lemma touch_absent: "m_map s k = None \<Longrightarrow> touch s k = Inr (False, s)"
  by (simp add: touch_def)

lemma assign_leaves:
  assumes "consistent s" "m_map s k = Some (old, r)"
  shows "\<exists>s1. assign s k v = Inr (True, s1) \<and>
           leaves s (k # removeAll k (recency s)) ((stored s)(k \<mapsto> v)) [old] s1"
  using assign_iter_leaves[OF assms, of v] assms(2) by (auto simp: assign_def)

lemma assign_absent: "m_map s k = None \<Longrightarrow> assign s k v = Inr (False, s)"
  by (simp add: assign_def)

lemma erase_absent: "m_map s k = None \<Longrightarrow> erase s k = Inr (False, s)"
  by (simp add: erase_def)

lemma get_present:
  assumes "consistent s" "m_map s k = Some (v, r)"
  shows "\<exists>s1. get T s k = Inr (v, s1) \<and>
           leaves s (k # removeAll k (recency s)) (stored s) [] s1"
proof -
  from touch_leaves[OF assms] obtain s1 where
    t: "touch s k = Inr (True, s1)" and
    l: "leaves s (k # removeAll k (recency s)) (stored s) [] s1" by blast
  from l have "stored s1 k = Some v" using assms(2) by (simp add: leaves_def stored_def)
  then obtain r1 where "m_map s1 k = Some (v, r1)" by (auto simp: stored_def)
  with t l assms(2) show ?thesis by (simp add: get_def)
qed

lemma map_subscript_present:
  "stored s k = Some v \<Longrightarrow> map_subscript T s k = (v, s)"
  by (auto simp: map_subscript_def stored_def)

lemma set_butlast_last: "xs \<noteq> [] \<Longrightarrow> set xs = insert (last xs) (set (butlast xs))"
  by (induction xs rule: rev_induct) auto

lemma distinct_last_notin: "distinct xs \<Longrightarrow> xs \<noteq> [] \<Longrightarrow> last xs \<notin> set (butlast xs)"
  by (induction xs rule: rev_induct) auto

lemma drop_butlast_last: "n < length xs \<Longrightarrow> drop n xs = drop n (butlast xs) @ [last xs]"
  by (induction xs rule: rev_induct) auto

lemma map_filter_agree:
  "\<forall>x\<in>set xs. f x = g x \<Longrightarrow> List.map_filter f xs = List.map_filter g xs"
  by (induction xs) (auto split: option.split)

lemma trim_loop_leaves:
  "consistent s \<Longrightarrow> m_capacity s < length (recency s) \<Longrightarrow>
   \<exists>s1. trim_loop s = Inr s1 \<and>
     leaves s (take (m_capacity s) (recency s))
       (stored s |` set (take (m_capacity s) (recency s)))
       (List.map_filter (stored s) (rev (drop (m_capacity s) (recency s)))) s1"
proof (induction "length (recency s)" arbitrary: s rule: less_induct)
  case less
  let ?c = "m_capacity s" and ?r = "recency s"
  have ne: "?r \<noteq> []" using less.prems(2) by auto
  have d: "distinct ?r" using less.prems(1) by (rule consistent_distinct)
  from erase_oldest_leaves[OF less.prems(1) ne] obtain s0 old where
    old: "stored s (last ?r) = Some old" and e: "erase_oldest s = Inr s0" and
    l0: "leaves s (butlast ?r) ((stored s)(last ?r := None)) [old] s0"
    by blast
  from l0 have c0: "consistent s0" and r0: "recency s0 = butlast ?r"
    and m0: "stored s0 = (stored s)(last ?r := None)" and cap0: "m_capacity s0 = ?c"
    by (simp_all add: leaves_def)
  have "length (m_list s0) = length (recency s0)" by (simp add: recency_def)
  then have len0: "length (m_list s0) = length ?r - 1"
    using r0 by simp
  have notin: "last ?r \<notin> set (butlast ?r)"
    using d ne by (rule distinct_last_notin)
  have dm: "stored s x = None" if "x \<notin> set ?r" for x
  proof -
    have "x \<notin> dom (m_map s)" using that consistent_dom[OF less.prems(1)] by simp
    then have "m_map s x = None" by blast
    then show ?thesis by (simp add: stored_def)
  qed
  show ?case
  proof (cases "?c < length ?r - 1")
    case True
    have "length (recency s0) < length ?r" using r0 ne by simp
    moreover have "m_capacity s0 < length (recency s0)" using True r0 cap0 by simp
    ultimately obtain s1 where
      t: "trim_loop s0 = Inr s1" and
      l1: "leaves s0 (take ?c (butlast ?r)) (stored s0 |` set (take ?c (butlast ?r)))
             (List.map_filter (stored s0) (rev (drop ?c (butlast ?r)))) s1"
      using less.hyps[OF _ c0] r0 cap0 by auto
    have tk: "take ?c (butlast ?r) = take ?c ?r"
      using True by (simp add: take_butlast)
    have "set (take ?c (butlast ?r)) \<subseteq> set (butlast ?r)" by (rule set_take_subset)
    with notin have "last ?r \<notin> set (take ?c ?r)" using tk by auto
    then have rs: "stored s0 |` set (take ?c ?r) = stored s |` set (take ?c ?r)"
      by (auto simp: m0 restrict_map_def)
    have dr: "drop ?c ?r = drop ?c (butlast ?r) @ [last ?r]"
      using less.prems(2) by (rule drop_butlast_last)
    have "\<forall>x\<in>set (drop ?c (butlast ?r)). stored s0 x = stored s x"
      using notin m0 by (auto dest: in_set_dropD)
    then have "List.map_filter (stored s0) (rev (drop ?c (butlast ?r)))
             = List.map_filter (stored s) (rev (drop ?c (butlast ?r)))"
      by (intro map_filter_agree) simp
    with old dr have fr: "[old] @ List.map_filter (stored s0) (rev (drop ?c (butlast ?r)))
        = List.map_filter (stored s) (rev (drop ?c ?r))"
      by simp
    from leaves_trans[OF l0 l1] have
      "leaves s (take ?c ?r) (stored s |` set (take ?c ?r))
         (List.map_filter (stored s) (rev (drop ?c ?r))) s1"
      by (simp only: tk rs fr)
    moreover have "trim_loop s = Inr s1"
      using e t True len0 cap0 by (subst trim_loop.simps) simp
    ultimately show ?thesis by blast
  next
    case False
    with less.prems(2) have eq: "length ?r = Suc ?c" by simp
    then have tk: "take ?c ?r = butlast ?r" by (simp add: butlast_conv_take)
    have "stored s |` set (butlast ?r) = (stored s)(last ?r := None)"
    proof
      fix x
      show "(stored s |` set (butlast ?r)) x = ((stored s)(last ?r := None)) x"
      proof (cases "x \<in> set (butlast ?r)")
        case True
        with notin show ?thesis by auto
      next
        case False
        then have "x = last ?r \<or> x \<notin> set ?r"
          using set_butlast_last[OF ne] by auto
        with False dm show ?thesis by (auto simp: restrict_map_def)
      qed
    qed
    then have rs: "(stored s)(last ?r := None) = stored s |` set (take ?c ?r)"
      by (simp add: tk)
    have "drop ?c ?r = [last ?r]"
      using eq drop_butlast_last[OF less.prems(2)] by simp
    with old have fr: "[old] = List.map_filter (stored s) (rev (drop ?c ?r))"
      by simp
    from l0 have "leaves s (take ?c ?r) (stored s |` set (take ?c ?r))
         (List.map_filter (stored s) (rev (drop ?c ?r))) s0"
      by (simp only: tk[symmetric] rs fr[symmetric])
    moreover have "trim_loop s = Inr s0"
      using e False len0 cap0 by (subst trim_loop.simps) simp
    ultimately show ?thesis by blast
  qed
qed

lemma stored_outside: "consistent s \<Longrightarrow> k \<notin> set (recency s) \<Longrightarrow> stored s k = None"
proof -
  assume "consistent s" "k \<notin> set (recency s)"
  then have "k \<notin> dom (m_map s)" using consistent_dom[of s] by simp
  then have "m_map s k = None" by blast
  then show ?thesis by (simp add: stored_def)
qed

lemma stored_restrict: "consistent s \<Longrightarrow> stored s |` set (recency s) = stored s"
  by (rule ext) (simp add: restrict_map_def stored_outside)

lemma trim_leaves:
  assumes "consistent s"
  shows "\<exists>b s1. trim s = Inr (b, s1) \<and>
     leaves s (take (m_capacity s) (recency s))
       (stored s |` set (take (m_capacity s) (recency s)))
       (List.map_filter (stored s) (rev (drop (m_capacity s) (recency s)))) s1"
proof (cases "length (recency s) \<le> m_capacity s")
  case True
  then have "trim s = Inr (False, s)"
    using assms by (simp add: trim_def consistent_length)
  moreover from True have "leaves s (take (m_capacity s) (recency s))
       (stored s |` set (take (m_capacity s) (recency s)))
       (List.map_filter (stored s) (rev (drop (m_capacity s) (recency s)))) s"
    using leaves_refl[OF assms] by (simp add: stored_restrict[OF assms])
  ultimately show ?thesis by blast
next
  case False
  then have lt: "m_capacity s < length (recency s)" by simp
  from trim_loop_leaves[OF assms lt] lt assms show ?thesis
    by (auto simp: trim_def consistent_length)
qed

lemma stored_capacity: "stored (s\<lparr>m_capacity := n\<rparr>) = stored s"
  by (simp add: stored_def fun_eq_iff)

lemma recency_capacity: "recency (s\<lparr>m_capacity := n\<rparr>) = recency s"
  by (simp add: recency_def)

lemma leaves_capacity:
  assumes "leaves (s\<lparr>m_capacity := n\<rparr>) ks m f s1"
  shows "leaves s ks m f (s1\<lparr>m_capacity := m_capacity s\<rparr>)"
proof -
  have "consistent (s1\<lparr>m_capacity := m_capacity s\<rparr>) = consistent s1"
    by (rule consistent_fields) simp_all
  with assms show ?thesis by (simp add: leaves_def recency_capacity stored_capacity)
qed

lemma consistent_capacity: "consistent (s\<lparr>m_capacity := n\<rparr>) = consistent s"
  by (rule consistent_fields) simp_all

lemma resize_leaves:
  assumes "consistent s"
  shows "\<exists>s1. resize s n = Inr s1 \<and>
     leaves (s\<lparr>m_capacity := n\<rparr>) (take n (recency s)) (stored s |` set (take n (recency s)))
       (List.map_filter (stored s) (rev (drop n (recency s)))) s1"
proof -
  have c: "consistent (s\<lparr>m_capacity := n\<rparr>)" using assms by (simp add: consistent_capacity)
  from trim_leaves[OF c] show ?thesis
    by (auto simp: resize_def recency_capacity stored_capacity)
qed

lemma clear_leaves:
  assumes "consistent s"
  shows "\<exists>s1. clear s = Inr s1 \<and>
     leaves s [] Map.empty (List.map_filter (stored s) (rev (recency s))) s1"
proof -
  have c: "consistent (s\<lparr>m_capacity := 0\<rparr>)" using assms by (simp add: consistent_capacity)
  from trim_leaves[OF c] obtain b s1 where
    t: "trim (s\<lparr>m_capacity := 0\<rparr>) = Inr (b, s1)" and
    l: "leaves (s\<lparr>m_capacity := 0\<rparr>) [] Map.empty (List.map_filter (stored s) (rev (recency s))) s1"
    by (auto simp: recency_capacity stored_capacity)
  from leaves_capacity[OF l] t show ?thesis by (simp add: clear_def Let_def)
qed

lemma insert_or_assign_present:
  assumes "consistent s" "m_map s k = Some (old, r)"
  shows "\<exists>s1. insert_or_assign T s k v = Inr s1 \<and>
           leaves s (k # removeAll k (recency s)) ((stored s)(k \<mapsto> v)) [old] s1"
  using assign_iter_leaves[OF assms, of v] assms(2) by (simp add: insert_or_assign_def)

lemma insert_or_assign_absent:
  "m_map s k = None \<Longrightarrow>
   insert_or_assign T s k v =
     (case insert_lru T s k v of Inl e \<Rightarrow> Inl e | Inr (b, s1) \<Rightarrow> Inr s1)"
  by (simp add: insert_or_assign_def)

lemma get_absent:
  assumes "m_map s k = None"
    and "insert_lru T s k (case m_create_callback s of Some creator \<Rightarrow> creator k | None \<Rightarrow> Value_init T)
           = Inr (b, s1)"
    and "stored s1 k = Some v"
  shows "get T s k = Inr (v, s1)"
  using assms by (simp add: get_def map_subscript_present)

lemma get_absent_error:
  assumes "m_map s k = None"
    and "insert_lru T s k (case m_create_callback s of Some creator \<Rightarrow> creator k | None \<Rightarrow> Value_init T)
           = Inl e"
  shows "get T s k = Inl e"
  using assms by (simp add: get_def)

section \<open>The invariant of the public operations\<close>

lemma length_front: "k \<in> set r \<Longrightarrow> length (k # removeAll k r) \<le> length r"
  using length_removeAll_less[of k r] by simp

lemma leaves_consistent: "leaves s ks m f s1 \<Longrightarrow> consistent s1"
  by (simp add: leaves_def)

lemma leaves_bound:
  "leaves s ks m f s1 \<Longrightarrow> length ks \<le> m_capacity s \<Longrightarrow> length (recency s1) \<le> m_capacity s1"
  by (simp add: leaves_def)

lemma present_in_recency:
  "consistent s \<Longrightarrow> m_map s k = Some (v, r) \<Longrightarrow> k \<in> set (recency s)"
  using consistent_dom[of s] by auto

text \<open>What \<open>insert\<close> does for an absent key, by the case of \<open>make_space\<close>.\<close>

lemma insert_lru_absent:
  assumes "consistent s" "m_map s k = None" "length (recency s) \<le> m_capacity s"
    and "insert_lru T s k v = Inr (b, s1)"
  shows "b \<and> consistent s1 \<and> length (recency s1) \<le> m_capacity s1 \<and> contains s1 k \<and>
         m_capacity s1 = m_capacity s"
proof (cases "length (recency s) = m_capacity s")
  case False
  from insert_lru_room[OF assms(1,2) False, of T v] assms(3,4) False show ?thesis
    by (auto simp: leaves_def contains_stored)
next
  case True
  show ?thesis
  proof (cases "recency s = []")
    case Nil: True
    with True assms(1,2,4) insert_lru_zero[of s k T v] show ?thesis by simp
  next
    case False
    from insert_lru_full[OF assms(1,2) True False, of T v] assms(3,4) False show ?thesis
      by (auto simp: leaves_def contains_stored)
  qed
qed

lemma call_invariant:
  assumes "consistent s" "length (recency s) \<le> m_capacity s" "call T s c = Inr (ret, s1)"
  shows "consistent s1 \<and> length (recency s1) \<le> m_capacity s1 \<and>
         m_capacity s1 = (case c of Resize n \<Rightarrow> n | _ \<Rightarrow> m_capacity s)"
proof (cases c)
  case (Insert k v)
  show ?thesis
  proof (cases "m_map s k")
    case None
    from assms(3) Insert obtain b where "insert_lru T s k v = Inr (b, s1)"
      by (auto split: sum.splits)
    from insert_lru_absent[OF assms(1) None assms(2) this] show ?thesis by (simp add: Insert)
  next
    case (Some p)
    with assms Insert show ?thesis by (auto simp: insert_lru_present)
  qed
next
  case (Insert_or_assign k v)
  show ?thesis
  proof (cases "m_map s k")
    case None
    from assms(3) Insert_or_assign None obtain b where "insert_lru T s k v = Inr (b, s1)"
      by (auto simp: insert_or_assign_absent split: sum.splits)
    from insert_lru_absent[OF assms(1) None assms(2) this] show ?thesis by (simp add: Insert_or_assign)
  next
    case (Some p)
    obtain old r where p: "m_map s k = Some (old, r)" using Some by (cases p) simp
    from insert_or_assign_present[OF assms(1) p, of T v] assms(3) Insert_or_assign
    have "leaves s (k # removeAll k (recency s)) ((stored s)(k \<mapsto> v)) [old] s1" by auto
    with length_front[OF present_in_recency[OF assms(1) p]] assms(2) show ?thesis
      by (simp add: leaves_def Insert_or_assign)
  qed
next
  case (Assign k v)
  show ?thesis
  proof (cases "m_map s k")
    case None
    with assms Assign show ?thesis by (auto simp: assign_absent)
  next
    case (Some p)
    obtain old r where p: "m_map s k = Some (old, r)" using Some by (cases p) simp
    from assign_leaves[OF assms(1) p, of v] assms(3) Assign
    have "leaves s (k # removeAll k (recency s)) ((stored s)(k \<mapsto> v)) [old] s1" by auto
    with length_front[OF present_in_recency[OF assms(1) p]] assms(2) show ?thesis
      by (simp add: leaves_def Assign)
  qed
next
  case (Get k)
  show ?thesis
  proof (cases "m_map s k")
    case None
    let ?v = "case m_create_callback s of Some creator \<Rightarrow> creator k | None \<Rightarrow> Value_init T"
    from assms(3) Get None obtain b s0 v' where
      i: "insert_lru T s k ?v = Inr (b, s0)" and m: "map_subscript T s0 k = (v', s1)"
      by (auto simp: get_def split: sum.splits prod.splits)
    from insert_lru_absent[OF assms(1) None assms(2) i]
    have inv0: "consistent s0 \<and> length (recency s0) \<le> m_capacity s0 \<and> m_capacity s0 = m_capacity s"
      and "contains s0 k"
      by simp_all
    then obtain x where "stored s0 k = Some x" by (auto simp: contains_stored)
    with m have "s1 = s0" by (simp add: map_subscript_present)
    with inv0 show ?thesis by (simp add: Get)
  next
    case (Some p)
    obtain v r where p: "m_map s k = Some (v, r)" using Some by (cases p) simp
    from get_present[OF assms(1) p, of T] assms(3) Get
    have "leaves s (k # removeAll k (recency s)) (stored s) [] s1" by auto
    with length_front[OF present_in_recency[OF assms(1) p]] assms(2) show ?thesis
      by (simp add: leaves_def Get)
  qed
next
  case (Touch k)
  show ?thesis
  proof (cases "m_map s k")
    case None
    with assms Touch show ?thesis by (auto simp: touch_absent)
  next
    case (Some p)
    obtain v r where p: "m_map s k = Some (v, r)" using Some by (cases p) simp
    from touch_leaves[OF assms(1) p] assms(3) Touch
    have "leaves s (k # removeAll k (recency s)) (stored s) [] s1" by auto
    with length_front[OF present_in_recency[OF assms(1) p]] assms(2) show ?thesis
      by (simp add: leaves_def Touch)
  qed
next
  case (At k)
  with assms show ?thesis by (auto simp: at_def split: option.splits)
next
  case (Contains k)
  with assms show ?thesis by auto
next
  case (Erase k)
  show ?thesis
  proof (cases "m_map s k")
    case None
    with assms Erase show ?thesis by (auto simp: erase_absent)
  next
    case (Some p)
    obtain v r where p: "m_map s k = Some (v, r)" using Some by (cases p) simp
    from erase_leaves[OF assms(1) p] assms(3) Erase
    have "leaves s (removeAll k (recency s)) ((stored s)(k := None)) [v] s1" by auto
    moreover have "length (removeAll k (recency s)) \<le> m_capacity s"
      by (rule le_trans[OF length_removeAll_less_eq assms(2)])
    ultimately show ?thesis
      by (simp add: leaves_def Erase)
  qed
next
  case (Resize n)
  from resize_leaves[OF assms(1), of n] assms(3) Resize
  have "leaves (s\<lparr>m_capacity := n\<rparr>) (take n (recency s)) (stored s |` set (take n (recency s)))
       (List.map_filter (stored s) (rev (drop n (recency s)))) s1" by auto
  then show ?thesis by (simp add: leaves_def Resize)
next
  case Clear
  from clear_leaves[OF assms(1)] assms(3) Clear
  have "leaves s [] Map.empty (List.map_filter (stored s) (rev (recency s))) s1" by auto
  then show ?thesis by (simp add: leaves_def Clear)
qed

lemma calls_invariant:
  "consistent s \<Longrightarrow> length (recency s) \<le> m_capacity s \<Longrightarrow> calls T s cs = Inr s1 \<Longrightarrow>
   consistent s1 \<and> length (recency s1) \<le> m_capacity s1"
proof (induction cs arbitrary: s)
  case Nil
  then show ?case by simp
next
  case (Cons c cs)
  from Cons.prems(3) obtain ret s0 where
    c: "call T s c = Inr (ret, s0)" and cs: "calls T s0 cs = Inr s1"
    by (auto split: sum.splits)
  from call_invariant[OF Cons.prems(1,2) c] Cons.IH[OF _ _ cs] show ?case by simp
qed

lemma LRU_Cache_consistent: "consistent (LRU_Cache sz creator deletor)"
  by (simp add: consistent_def LRU_Cache_def)

lemma LRU_Cache_recency: "recency (LRU_Cache sz creator deletor) = []"
  by (simp add: recency_def LRU_Cache_def)

text \<open>Every call on a cache of positive capacity returns.\<close>

lemma insert_lru_returns:
  assumes "consistent s" "0 < m_capacity s"
  shows "\<exists>b s1. insert_lru T s k v = Inr (b, s1)"
proof (cases "m_map s k")
  case None
  show ?thesis
  proof (cases "length (recency s) = m_capacity s")
    case True
    with assms(2) have "recency s \<noteq> []" by auto
    from insert_lru_full[OF assms(1) None True this, of T v] show ?thesis by blast
  next
    case False
    from insert_lru_room[OF assms(1) None False, of T v] show ?thesis by blast
  qed
next
  case (Some p)
  then have "insert_lru T s k v = Inr (False, s)" by (simp add: insert_lru_present)
  then show ?thesis by blast
qed

lemma call_returns:
  assumes "consistent s" "0 < m_capacity s"
  shows "\<exists>ret s1. call T s c = Inr (ret, s1)"
proof (cases c)
  case (Insert k v)
  with insert_lru_returns[OF assms, of T k v] show ?thesis by auto
next
  case (Insert_or_assign k v)
  show ?thesis
  proof (cases "m_map s k")
    case None
    with insert_lru_returns[OF assms, of T k v] Insert_or_assign show ?thesis
      by (auto simp: insert_or_assign_absent)
  next
    case (Some p)
    obtain old r where p: "m_map s k = Some (old, r)" using Some by (cases p) simp
    from insert_or_assign_present[OF assms(1) p, of T v] Insert_or_assign show ?thesis by auto
  qed
next
  case (Assign k v)
  show ?thesis
  proof (cases "m_map s k")
    case None
    with Assign show ?thesis by (simp add: assign_absent)
  next
    case (Some p)
    obtain old r where p: "m_map s k = Some (old, r)" using Some by (cases p) simp
    from assign_leaves[OF assms(1) p, of v] Assign show ?thesis by auto
  qed
next
  case (Get k)
  show ?thesis
  proof (cases "m_map s k")
    case None
    let ?v = "case m_create_callback s of Some creator \<Rightarrow> creator k | None \<Rightarrow> Value_init T"
    from insert_lru_returns[OF assms, of T k ?v] obtain b s0 where
      "insert_lru T s k ?v = Inr (b, s0)" by blast
    with None have "get T s k = Inr (map_subscript T s0 k)" by (simp add: get_def)
    with Get show ?thesis by (cases "map_subscript T s0 k") simp
  next
    case (Some p)
    obtain v r where p: "m_map s k = Some (v, r)" using Some by (cases p) simp
    from get_present[OF assms(1) p, of T] Get show ?thesis by auto
  qed
next
  case (Touch k)
  show ?thesis
  proof (cases "m_map s k")
    case None
    with Touch show ?thesis by (simp add: touch_absent)
  next
    case (Some p)
    obtain v r where p: "m_map s k = Some (v, r)" using Some by (cases p) simp
    from touch_leaves[OF assms(1) p] Touch show ?thesis by auto
  qed
next
  case (At k)
  then show ?thesis by (simp split: prod.splits)
next
  case (Contains k)
  then show ?thesis by simp
next
  case (Erase k)
  show ?thesis
  proof (cases "m_map s k")
    case None
    with Erase show ?thesis by (simp add: erase_absent)
  next
    case (Some p)
    obtain v r where p: "m_map s k = Some (v, r)" using Some by (cases p) simp
    from erase_leaves[OF assms(1) p] Erase show ?thesis by auto
  qed
next
  case (Resize n)
  with resize_leaves[OF assms(1), of n] show ?thesis by auto
next
  case Clear
  with clear_leaves[OF assms(1)] show ?thesis by auto
qed

lemma calls_return:
  "consistent s \<Longrightarrow> length (recency s) \<le> m_capacity s \<Longrightarrow> 0 < m_capacity s \<Longrightarrow>
   Resize 0 \<notin> set cs \<Longrightarrow> \<exists>s1. calls T s cs = Inr s1"
proof (induction cs arbitrary: s)
  case Nil
  then show ?case by simp
next
  case (Cons c cs)
  from call_returns[OF Cons.prems(1,3), of T c] obtain ret s0 where
    c: "call T s c = Inr (ret, s0)" by blast
  from call_invariant[OF Cons.prems(1,2) c] have
    i: "consistent s0" "length (recency s0) \<le> m_capacity s0"
    and cap: "m_capacity s0 = (case c of Resize n \<Rightarrow> n | _ \<Rightarrow> m_capacity s)" by simp_all
  have "0 < m_capacity s0"
    using cap Cons.prems(3,4) by (cases c) auto
  from Cons.IH[OF i this] Cons.prems(4) c show ?case by auto
qed

text \<open>Loading the pairs of an initializer list is a sequence of \<open>insert_or_assign\<close> calls.\<close>

lemma load_calls:
  "load T s il = calls T s (map (\<lambda>i. Insert_or_assign (fst i) (snd i)) il)"
  by (induction il arbitrary: s) (auto split: sum.splits)

lemma load_leaves:
  "consistent s \<Longrightarrow> length (recency s) + length il \<le> m_capacity s \<Longrightarrow>
   \<exists>s1. load T s il = Inr s1 \<and> consistent s1 \<and> m_capacity s1 = m_capacity s \<and>
     m_create_callback s1 = m_create_callback s \<and> m_delete_callback s1 = m_delete_callback s \<and>
     length (recency s1) \<le> length (recency s) + length il \<and>
     (distinct (map fst il) \<and> set (map fst il) \<inter> set (recency s) = {} \<longrightarrow>
        recency s1 = rev (map fst il) @ recency s \<and> deleted s1 = deleted s)"
proof (induction il arbitrary: s)
  case Nil
  then show ?case by simp
next
  case (Cons i il)
  let ?k = "fst i" and ?v = "snd i"
  have "\<exists>s0. insert_or_assign T s ?k ?v = Inr s0 \<and> consistent s0 \<and> m_capacity s0 = m_capacity s \<and>
     m_create_callback s0 = m_create_callback s \<and> m_delete_callback s0 = m_delete_callback s \<and>
     length (recency s0) \<le> Suc (length (recency s)) \<and>
     (?k \<notin> set (recency s) \<longrightarrow> recency s0 = ?k # recency s \<and> deleted s0 = deleted s)"
  proof (cases "m_map s ?k")
    case None
    have "length (recency s) \<noteq> m_capacity s" using Cons.prems(2) by simp
    from insert_lru_room[OF Cons.prems(1) None this, of T ?v] None show ?thesis
      by (auto simp: insert_or_assign_absent leaves_def)
  next
    case (Some p)
    obtain old r where p: "m_map s ?k = Some (old, r)" using Some by (cases p) simp
    have "?k \<in> set (recency s)" using Cons.prems(1) p by (rule present_in_recency)
    with insert_or_assign_present[OF Cons.prems(1) p, of T ?v] length_front[OF this]
    show ?thesis by (auto simp: leaves_def)
  qed
  then obtain s0 where
    a: "insert_or_assign T s ?k ?v = Inr s0" and c0: "consistent s0" and
    f0: "m_capacity s0 = m_capacity s" "m_create_callback s0 = m_create_callback s"
        "m_delete_callback s0 = m_delete_callback s" and
    l0: "length (recency s0) \<le> Suc (length (recency s))" and
    d0: "?k \<notin> set (recency s) \<longrightarrow> recency s0 = ?k # recency s \<and> deleted s0 = deleted s"
    by blast
  have "length (recency s0) + length il \<le> m_capacity s0"
    using l0 f0(1) Cons.prems(2) by simp
  from Cons.IH[OF c0 this] obtain s1 where
    b: "load T s0 il = Inr s1" and c1: "consistent s1" and
    f1: "m_capacity s1 = m_capacity s0" "m_create_callback s1 = m_create_callback s0"
        "m_delete_callback s1 = m_delete_callback s0" and
    l1: "length (recency s1) \<le> length (recency s0) + length il" and
    d1: "distinct (map fst il) \<and> set (map fst il) \<inter> set (recency s0) = {} \<longrightarrow>
        recency s1 = rev (map fst il) @ recency s0 \<and> deleted s1 = deleted s0"
    by blast
  have "recency s1 = rev (map fst (i # il)) @ recency s \<and> deleted s1 = deleted s"
    if h: "distinct (map fst (i # il)) \<and> set (map fst (i # il)) \<inter> set (recency s) = {}"
  proof -
    from h have k: "?k \<notin> set (recency s)" by auto
    with d0 have r0: "recency s0 = ?k # recency s" "deleted s0 = deleted s" by simp_all
    from h have "distinct (map fst il) \<and> set (map fst il) \<inter> set (recency s0) = {}"
      by (auto simp: r0)
    with d1 r0 show ?thesis by simp
  qed
  with a b c1 f0 f1 l0 l1 show ?case by simp
qed

section \<open>The capacity invariant\<close>

text \<open>
  Claim C1.  After every call of a sequence of public operations (\<open>insert\<close>,
  \<open>insert_or_assign\<close>, \<open>assign\<close>, \<open>get\<close>, \<open>touch\<close>, \<open>at\<close>, \<open>contains\<close>, \<open>erase\<close>, \<open>resize\<close>,
  \<open>clear\<close>) on a cache constructed with any capacity, by either constructor,
  \<open>0 \<le> size() \<le> capacity()\<close> holds when the call has returned.  The sequence \<open>cs\<close> is
  arbitrary, so this holds after each of its calls.  Moreover every call of the sequence
  does return when the cache is constructed with a positive capacity and is not resized
  to \<open>0\<close>.
\<close>

theorem capacity_invariant:
  "(calls T (LRU_Cache sz creator deletor) cs = Inr s \<longrightarrow>
      0 \<le> size_lru s \<and> size_lru s \<le> capacity s) \<and>
   (LRU_Cache_il T il = Inr s0 \<and> calls T s0 cs = Inr s \<longrightarrow>
      0 \<le> size_lru s \<and> size_lru s \<le> capacity s) \<and>
   (0 < sz \<and> Resize 0 \<notin> set cs \<longrightarrow>
      (\<exists>s1. calls T (LRU_Cache sz creator deletor) cs = Inr s1))"
proof (intro conjI impI)
  let ?s = "LRU_Cache sz creator deletor :: ('a, 'b) cache"
  assume "calls T ?s cs = Inr s"
  from calls_invariant[OF LRU_Cache_consistent _ this]
  show "size_lru s \<le> capacity s"
    by (simp add: LRU_Cache_recency consistent_length capacity_def)
next
  let ?s = "LRU_Cache (length il) None False :: ('a, 'b) cache"
  assume a: "LRU_Cache_il T il = Inr s0 \<and> calls T s0 cs = Inr s"
  then have "calls T ?s (map (\<lambda>i. Insert_or_assign (fst i) (snd i)) il) = Inr s0"
    by (simp add: LRU_Cache_il_def load_calls)
  from calls_invariant[OF LRU_Cache_consistent _ this]
  have "consistent s0 \<and> length (recency s0) \<le> m_capacity s0"
    by (simp add: LRU_Cache_recency)
  with a calls_invariant[of s0 T cs s]
  show "size_lru s \<le> capacity s"
    by (simp add: consistent_length capacity_def)
next
  let ?s = "LRU_Cache sz creator deletor :: ('a, 'b) cache"
  assume a: "0 < sz \<and> Resize 0 \<notin> set cs"
  have "length (recency ?s) \<le> m_capacity ?s" by (simp add: LRU_Cache_recency)
  moreover have "0 < m_capacity ?s" using a by (simp add: LRU_Cache_def)
  ultimately show "\<exists>s1. calls T ?s cs = Inr s1"
    using a by (intro calls_return[OF LRU_Cache_consistent]) simp_all
qed simp_all

theorem capacity_invariant_witness:
  "(\<exists>s. calls (same_types (0::int)) (LRU_Cache 2 None True)
          [Insert (1::int) 10, Insert 2 20, Get 1, Insert 3 30, Resize 1, Get 5, Clear, Assign 5 1,
           Insert_or_assign 6 60, Touch 6, Erase 7] = Inr s \<and>
        recency s = [6] \<and> size_lru s = 1 \<and> capacity s = 1 \<and> size_lru s \<le> capacity s) \<and>
   (\<exists>s0 s. LRU_Cache_il (same_types (0::int)) [(1::int, 10), (2, 20), (1, 30)] = Inr s0 \<and>
        calls (same_types 0) s0 [Insert 4 40, Insert 5 50] = Inr s \<and>
        recency s = [5, 4, 1] \<and> size_lru s = 3 \<and> capacity s = 3 \<and> size_lru s \<le> capacity s) \<and>
   (0::nat) < 2 \<and>
   Resize 0 \<notin> set [Insert (1::int) (10::int), Get 2, Resize 1, Clear, Insert 3 30] \<and>
   (\<exists>s. calls (same_types (0::int)) (LRU_Cache 2 None True)
          [Insert (1::int) 10, Get 2, Resize 1, Clear, Insert 3 30] = Inr s)"
proof -
  let ?T = "same_types (0::int) :: (int, int) template_args"
  let ?cs = "[Insert (1::int) 10, Insert 2 20, Get 1, Insert 3 30, Resize 1, Get 5, Clear, Assign 5 1,
           Insert_or_assign 6 60, Touch 6, Erase 7] :: (int, int) operation list"
  obtain s where s: "calls ?T (LRU_Cache 2 None True) ?cs = Inr s"
    and r: "recency s = [6]" "size_lru s = 1" "capacity s = 1"
    by (simp add: lru_defs)
  from s capacity_invariant[of ?T 2 None True ?cs s] have le: "size_lru s \<le> capacity s"
    by simp
  let ?il = "[(1::int, 10), (2, 20), (1, 30)] :: (int \<times> int) list"
  let ?ds = "[Insert 4 40, Insert 5 50] :: (int, int) operation list"
  obtain s0 t where s0: "LRU_Cache_il ?T ?il = Inr s0" and t: "calls ?T s0 ?ds = Inr t"
    and rt: "recency t = [5, 4, 1]" "size_lru t = 3" "capacity t = 3"
    by (simp add: lru_defs)
  from s0 t capacity_invariant[of ?T 0 None False ?ds t ?il s0] have "size_lru t \<le> capacity t"
    by simp
  with s r le s0 t rt have first: "(\<exists>s. calls ?T (LRU_Cache 2 None True) ?cs = Inr s \<and>
        recency s = [6] \<and> size_lru s = 1 \<and> capacity s = 1 \<and> size_lru s \<le> capacity s) \<and>
     (\<exists>s0 s. LRU_Cache_il ?T ?il = Inr s0 \<and> calls ?T s0 ?ds = Inr s \<and>
        recency s = [5, 4, 1] \<and> size_lru s = 3 \<and> capacity s = 3 \<and> size_lru s \<le> capacity s)"
    by blast
  let ?es = "[Insert (1::int) 10, Get 2, Resize 1, Clear, Insert 3 30] :: (int, int) operation list"
  have pre: "(0::nat) < 2 \<and> Resize 0 \<notin> set ?es" by simp
  with capacity_invariant[of ?T 2 None True ?es _ "[]", THEN conjunct2, THEN conjunct2]
  have "\<exists>s. calls ?T (LRU_Cache 2 None True) ?es = Inr s" by blast
  with first pre show ?thesis by blast
qed

section \<open>Capacity zero\<close>

text \<open>
  Claim C2.  The claim is that on a cache constructed with capacity \<open>0\<close> every \<open>insert\<close>
  completes and leaves the cache empty, and that its eviction step never reads the back of
  an empty recency sequence.  The code does otherwise.  On the cache that the constructor
  returns for capacity \<open>0\<close>, \<open>size()\<close> equals \<open>m_capacity\<close> and the list is empty; so \<open>make_space\<close>
  calls \<open>erase_oldest\<close>, which starts with \<open>m_list.back()\<close> on the empty list, and \<open>insert\<close>
  does not return, whatever the key and the value.
\<close>

theorem insert_capacity_zero:
  "size_lru (LRU_Cache 0 creator deletor) = m_capacity (LRU_Cache 0 creator deletor) \<and>
   m_list (LRU_Cache 0 creator deletor) = [] \<and>
   make_space (LRU_Cache 0 creator deletor) = Inl Empty_List \<and>
   insert_lru T (LRU_Cache 0 creator deletor) key val = Inl Empty_List"
  by (simp add: insert_lru_def LRU_Cache_def make_space_def size_lru_def erase_oldest_def)

section \<open>Eviction of the least recently used key\<close>

lemma take_append_take: "take n (xs @ take n ys) = take n (xs @ ys)"
  by (simp add: min_def)

lemma absent_outside: "consistent s \<Longrightarrow> k \<notin> set (recency s) \<Longrightarrow> m_map s k = None"
  using consistent_dom[of s] by blast

lemma insert_lru_recency:
  assumes "consistent s" "m_map s k = None" "length (recency s) \<le> m_capacity s" "0 < m_capacity s"
  shows "\<exists>s1. insert_lru T s k v = Inr (True, s1) \<and> consistent s1 \<and>
           m_capacity s1 = m_capacity s \<and> recency s1 = take (m_capacity s) (k # recency s)"
proof (cases "length (recency s) = m_capacity s")
  case True
  with assms(4) have ne: "recency s \<noteq> []" by auto
  have "butlast (recency s) = take (m_capacity s - 1) (recency s)"
    using True by (simp add: butlast_conv_take)
  with insert_lru_full[OF assms(1,2) True ne, of T v] assms(4) show ?thesis
    by (auto simp: leaves_def take_Cons')
next
  case False
  with insert_lru_room[OF assms(1,2) False, of T v] assms(3) show ?thesis
    by (auto simp: leaves_def)
qed

lemma inserts_recency:
  assumes "ins = Insert \<or> ins = Insert_or_assign"
  shows "consistent s \<Longrightarrow> length (recency s) \<le> m_capacity s \<Longrightarrow> 0 < m_capacity s \<Longrightarrow>
   distinct (map fst kvs) \<Longrightarrow> set (map fst kvs) \<inter> set (recency s) = {} \<Longrightarrow>
   \<exists>s1. calls T s (map (\<lambda>i. ins (fst i) (snd i)) kvs) = Inr s1 \<and> consistent s1 \<and>
     m_capacity s1 = m_capacity s \<and>
     recency s1 = take (m_capacity s) (rev (map fst kvs) @ recency s)"
proof (induction kvs arbitrary: s)
  case Nil
  then show ?case by simp
next
  case (Cons i kvs)
  let ?k = "fst i" and ?v = "snd i" and ?c = "m_capacity s"
  have "?k \<notin> set (recency s)" using Cons.prems(5) by auto
  then have none: "m_map s ?k = None" using Cons.prems(1) by (simp add: absent_outside)
  from insert_lru_recency[OF Cons.prems(1) none Cons.prems(2,3), of T ?v] obtain s0 where
    i: "insert_lru T s ?k ?v = Inr (True, s0)" and c0: "consistent s0" and
    cap0: "m_capacity s0 = ?c" and r0: "recency s0 = take ?c (?k # recency s)" by blast
  from i none assms have step: "call T s (ins ?k ?v) = Inr (if ins = Insert then Bool True else Void, s0)"
    by (auto simp: insert_or_assign_absent)
  have l0: "length (recency s0) \<le> m_capacity s0" using r0 cap0 by simp
  have "set (recency s0) \<subseteq> insert ?k (set (recency s))"
    using r0 set_take_subset[of ?c "?k # recency s"] by simp
  moreover have "?k \<notin> set (map fst kvs)" "set (map fst kvs) \<inter> set (recency s) = {}"
    using Cons.prems(4,5) by auto
  ultimately have dj: "set (map fst kvs) \<inter> set (recency s0) = {}" by blast
  from Cons.prems(3,4) cap0 have "0 < m_capacity s0" "distinct (map fst kvs)" by simp_all
  from Cons.IH[OF c0 l0 this dj] obtain s1 where
    "calls T s0 (map (\<lambda>i. ins (fst i) (snd i)) kvs) = Inr s1" "consistent s1"
    "m_capacity s1 = m_capacity s0"
    "recency s1 = take (m_capacity s0) (rev (map fst kvs) @ recency s0)" by blast
  with step cap0 r0 show ?case by (simp add: take_append_take)
qed

text \<open>
  Claim C3.  For every capacity \<open>c \<ge> 1\<close>, inserting \<open>c + 1\<close> pairs with distinct keys into a
  fresh cache, by \<open>insert\<close> or by \<open>insert_or_assign\<close> and with no other call in between, evicts
  exactly the key inserted first: all the calls return, the first key is absent, the other
  \<open>c\<close> keys are present, and they are the whole recency sequence, the last inserted first.
\<close>

theorem lru_evicts_first_inserted:
  assumes "1 \<le> c" "length kvs = c + 1" "distinct (map fst kvs)"
    and "ins = Insert \<or> ins = Insert_or_assign"
  shows "\<exists>s. calls T (LRU_Cache c creator deletor) (map (\<lambda>i. ins (fst i) (snd i)) kvs) = Inr s \<and>
           \<not> contains s (fst (hd kvs)) \<and> (\<forall>k\<in>set (map fst (tl kvs)). contains s k) \<and>
           recency s = rev (map fst (tl kvs)) \<and> size_lru s = c"
proof -
  let ?s = "LRU_Cache c creator deletor :: ('a, 'b) cache"
  have cap: "m_capacity ?s = c" by (simp add: LRU_Cache_def)
  from inserts_recency[OF assms(4) LRU_Cache_consistent, of c creator deletor kvs T] assms(1,3)
  obtain s where run: "calls T ?s (map (\<lambda>i. ins (fst i) (snd i)) kvs) = Inr s"
    and cons: "consistent s" and r: "recency s = take c (rev (map fst kvs))"
    by (auto simp: LRU_Cache_recency cap)
  from assms(2) obtain x xs where kvs: "kvs = x # xs" by (cases kvs) auto
  with assms(2) have len: "length xs = c" by simp
  with r kvs have r': "recency s = rev (map fst (tl kvs))" by simp
  have "fst (hd kvs) \<notin> set (map fst (tl kvs))" using assms(3) kvs by auto
  with r' cons have "\<not> contains s (fst (hd kvs))" by (simp add: contains_recency)
  moreover have "\<forall>k\<in>set (map fst (tl kvs)). contains s k"
    using r' cons by (simp add: contains_recency)
  moreover have "size_lru s = c" using cons r' kvs len by (simp add: consistent_length)
  ultimately show ?thesis using run r' by blast
qed

theorem lru_evicts_first_inserted_witness:
  "\<exists>s. calls (same_types (0::int)) (LRU_Cache 10 None False)
          (map (\<lambda>i. Insert_or_assign (fst i) (snd i))
             [(0::int, 0::int), (1, 1), (2, 2), (3, 3), (4, 4), (5, 5), (6, 6), (7, 7), (8, 8),
              (9, 9), (10, 10)]) = Inr s \<and>
        \<not> contains s 0 \<and> contains s 1 \<and> contains s 2 \<and> contains s 3 \<and> contains s 4 \<and>
        contains s 5 \<and> contains s 6 \<and> contains s 7 \<and> contains s 8 \<and> contains s 9 \<and>
        contains s 10 \<and> recency s = [10, 9, 8, 7, 6, 5, 4, 3, 2, 1] \<and> size_lru s = 10"
proof -
  let ?kvs = "[(0::int, 0::int), (1, 1), (2, 2), (3, 3), (4, 4), (5, 5), (6, 6), (7, 7), (8, 8),
              (9, 9), (10, 10)]"
  have "(1::nat) \<le> 10" "length ?kvs = 10 + 1" "distinct (map fst ?kvs)"
    "(Insert_or_assign :: int \<Rightarrow> int \<Rightarrow> (int, int) operation) = Insert \<or>
     (Insert_or_assign :: int \<Rightarrow> int \<Rightarrow> (int, int) operation) = Insert_or_assign"
    by simp_all
  from lru_evicts_first_inserted[OF this, of "same_types 0" None False]
  show ?thesis by simp
qed

section \<open>Promotion on read\<close>

text \<open>
  Claim C4.  \<open>get\<close> on a present key returns the stored value and moves the key to the front of
  the recency sequence, leaving the contents as they were.  With capacity \<open>2\<close> and distinct
  keys \<open>A\<close>, \<open>B\<close>, \<open>C\<close>: after \<open>insert(A)\<close>, \<open>insert(B)\<close> the order is \<open>B, A\<close>; \<open>get(A)\<close> returns the
  value stored for \<open>A\<close> and makes the order \<open>A, B\<close>; \<open>insert(C)\<close> then evicts \<open>B\<close>, and \<open>A\<close> and
  \<open>C\<close> are present.
\<close>

theorem get_promotes:
  "(consistent s \<and> m_map s k = Some (v, r) \<longrightarrow>
      (\<exists>s1. get T s k = Inr (v, s1) \<and> recency s1 = k # removeAll k (recency s) \<and>
         stored s1 = stored s \<and> deleted s1 = deleted s)) \<and>
   (A \<noteq> B \<and> C \<noteq> A \<and> C \<noteq> B \<longrightarrow>
      (\<exists>s2 s3 s4.
         calls T (LRU_Cache 2 creator deletor) [Insert A a, Insert B b] = Inr s2 \<and>
         recency s2 = [B, A] \<and>
         get T s2 A = Inr (Value_of_Key T (Key_of_Value T a), s3) \<and> recency s3 = [A, B] \<and>
         insert_lru T s3 C c = Inr (True, s4) \<and> recency s4 = [C, A] \<and>
         contains s4 A \<and> \<not> contains s4 B \<and> contains s4 C))"
proof (intro conjI impI)
  assume "consistent s \<and> m_map s k = Some (v, r)"
  with get_present[of s k v r T]
  show "\<exists>s1. get T s k = Inr (v, s1) \<and> recency s1 = k # removeAll k (recency s) \<and>
         stored s1 = stored s \<and> deleted s1 = deleted s"
    by (auto simp: leaves_def)
next
  assume "A \<noteq> B \<and> C \<noteq> A \<and> C \<noteq> B"
  then show "\<exists>s2 s3 s4.
         calls T (LRU_Cache 2 creator deletor) [Insert A a, Insert B b] = Inr s2 \<and>
         recency s2 = [B, A] \<and>
         get T s2 A = Inr (Value_of_Key T (Key_of_Value T a), s3) \<and> recency s3 = [A, B] \<and>
         insert_lru T s3 C c = Inr (True, s4) \<and> recency s4 = [C, A] \<and>
         contains s4 A \<and> \<not> contains s4 B \<and> contains s4 C"
    by (auto simp: lru_defs)
qed

theorem get_promotes_witness:
  "\<exists>s s1 s2 s3 s4.
     calls (same_types (0::int)) (LRU_Cache 2 None True) [Insert (1::int) 10, Insert 2 20] = Inr s \<and>
     consistent s \<and> m_map s 1 = Some (10, 1) \<and> recency s = [2, 1] \<and>
     get (same_types 0) s 1 = Inr (10, s1) \<and> recency s1 = [1, 2] \<and> stored s1 = stored s \<and>
     calls (same_types (0::int)) (LRU_Cache 2 None True) [Insert 1 10, Insert 2 20] = Inr s2 \<and>
     get (same_types 0) s2 1 = Inr (10, s3) \<and> recency s3 = [1, 2] \<and>
     insert_lru (same_types 0) s3 3 30 = Inr (True, s4) \<and> recency s4 = [3, 1] \<and>
     contains s4 1 \<and> \<not> contains s4 2 \<and> contains s4 3"
proof -
  let ?T = "same_types (0::int) :: (int, int) template_args"
  let ?cs = "[Insert (1::int) 10, Insert 2 20] :: (int, int) operation list"
  obtain s where run: "calls ?T (LRU_Cache 2 None True) ?cs = Inr s"
    and r: "recency s = [2, 1]" and m: "m_map s 1 = Some (10, 1)"
    by (simp add: lru_defs)
  from calls_invariant[OF LRU_Cache_consistent _ run] have cons: "consistent s"
    by (simp add: LRU_Cache_recency)
  from get_promotes[of s 1 10 1 ?T, THEN conjunct1] cons m r obtain s1 where
    g: "get ?T s 1 = Inr (10, s1)" "recency s1 = [1, 2]" "stored s1 = stored s"
    by auto
  have d: "(1::int) \<noteq> 2 \<and> (3::int) \<noteq> 1 \<and> (3::int) \<noteq> 2" by simp
  from get_promotes[of _ _ _ _ ?T "1::int" 2 3 None True 10 20 30, THEN conjunct2] d
  obtain s2 s3 s4 where
    "calls ?T (LRU_Cache 2 None True) ?cs = Inr s2"
    "get ?T s2 1 = Inr (10, s3)" "recency s3 = [1, 2]"
    "insert_lru ?T s3 3 30 = Inr (True, s4)" "recency s4 = [3, 1]"
    "contains s4 1" "\<not> contains s4 2" "contains s4 3"
    by (auto simp: same_types_def)
  with run cons m r g show ?thesis by blast
qed

section \<open>Calls of the deletor\<close>

lemma held_agree:
  "\<forall>x\<in>set ks. m x = m' x \<Longrightarrow> mset (List.map_filter m ks) = mset (List.map_filter m' ks)"
  using map_filter_agree[of ks m m'] by simp

lemma held_append:
  "mset (List.map_filter m (xs @ ys)) = mset (List.map_filter m xs) + mset (List.map_filter m ys)"
  by (simp add: map_filter_def)

lemma held_rev: "mset (List.map_filter m (rev xs)) = mset (List.map_filter m xs)"
  by (simp add: map_filter_def flip: rev_filter rev_map)

lemma held_mset:
  "mset xs = mset ys \<Longrightarrow> mset (List.map_filter m xs) = mset (List.map_filter m ys)"
proof -
  assume a: "mset xs = mset ys"
  have "mset (List.map_filter m zs)
      = image_mset (the \<circ> m) (filter_mset (\<lambda>x. m x \<noteq> None) (mset zs))" for zs
    unfolding map_filter_def by simp
  with a show ?thesis by simp
qed

lemma held_removeAll:
  "distinct r \<Longrightarrow> k \<in> set r \<Longrightarrow> m k = Some old \<Longrightarrow>
   mset (List.map_filter m r) = add_mset old (mset (List.map_filter m (removeAll k r)))"
proof (induction r)
  case Nil
  then show ?case by simp
next
  case (Cons x r)
  show ?case
  proof (cases "x = k")
    case True
    with Cons.prems show ?thesis by simp
  next
    case False
    with Cons show ?thesis by (cases "m x") auto
  qed
qed

lemma held_butlast:
  assumes "r \<noteq> []" "m (last r) = Some old"
  shows "mset (List.map_filter m r) = add_mset old (mset (List.map_filter m (butlast r)))"
proof -
  have "mset (List.map_filter m (butlast r @ [last r]))
      = mset (List.map_filter m (butlast r)) + mset (List.map_filter m [last r])"
    by (rule held_append)
  with assms show ?thesis by simp
qed

lemma tally_front:
  assumes "distinct r" "k \<in> set r"
  shows "mset (List.map_filter m (k # removeAll k r)) = mset (List.map_filter m r)"
proof (cases "m k")
  case None
  have "mset (k # removeAll k r) = mset r"
    using assms by (simp add: distinct_remove1_removeAll[symmetric])
  then show ?thesis by (rule held_mset)
next
  case (Some old)
  with held_removeAll[of r k m old] assms Some show ?thesis by simp
qed

lemma tally_assign:
  assumes "distinct r" "k \<in> set r" "m k = Some old"
  shows "mset [old] + mset (List.map_filter (m(k \<mapsto> v)) (k # removeAll k r))
       = mset (List.map_filter m r) + {#v#}"
proof -
  have "mset (List.map_filter (m(k \<mapsto> v)) (removeAll k r)) = mset (List.map_filter m (removeAll k r))"
    by (rule held_agree) simp
  with held_removeAll[of r k m old] assms show ?thesis by simp
qed

lemma tally_insert:
  assumes "k \<notin> set r"
  shows "mset (List.map_filter (m(k \<mapsto> v)) (k # r)) = mset (List.map_filter m r) + {#v#}"
proof -
  have "mset (List.map_filter (m(k \<mapsto> v)) r) = mset (List.map_filter m r)"
    using assms by (intro held_agree) auto
  then show ?thesis by simp
qed

lemma tally_insert_full:
  assumes "distinct r" "r \<noteq> []" "k \<notin> set r" "m (last r) = Some old"
  shows "mset [old] + mset (List.map_filter (m(last r := None, k \<mapsto> v)) (k # butlast r))
       = mset (List.map_filter m r) + {#v#}"
proof -
  have "last r \<notin> set (butlast r)" using assms(1,2) by (rule distinct_last_notin)
  moreover have "k \<notin> set (butlast r)" using assms(3) by (auto dest: in_set_butlastD)
  ultimately have "mset (List.map_filter (m(last r := None, k \<mapsto> v)) (butlast r))
      = mset (List.map_filter m (butlast r))"
    by (intro held_agree) auto
  with held_butlast[of r m old] assms(2,4) show ?thesis by simp
qed

lemma tally_erase:
  assumes "distinct r" "k \<in> set r" "m k = Some old"
  shows "mset [old] + mset (List.map_filter (m(k := None)) (removeAll k r))
       = mset (List.map_filter m r)"
proof -
  have "mset (List.map_filter (m(k := None)) (removeAll k r)) = mset (List.map_filter m (removeAll k r))"
    by (rule held_agree) simp
  with held_removeAll[of r k m old] assms show ?thesis by simp
qed

lemma tally_trim:
  "mset (List.map_filter m (rev (drop n r))) + mset (List.map_filter (m |` set (take n r)) (take n r))
   = mset (List.map_filter m r)"
proof -
  have "mset (List.map_filter (m |` set (take n r)) (take n r)) = mset (List.map_filter m (take n r))"
    by (rule held_agree) simp
  moreover have "mset (List.map_filter m (take n r @ drop n r))
     = mset (List.map_filter m (take n r)) + mset (List.map_filter m (drop n r))"
    by (rule held_append)
  ultimately show ?thesis by (simp add: held_rev)
qed

lemma leaves_tally:
  assumes "leaves s ks m f s1" "mset f + mset (List.map_filter m ks) = held s + e"
  shows "consistent s1 \<and> m_delete_callback s1 = m_delete_callback s \<and>
     (m_delete_callback s \<longrightarrow> mset (deleted s1) + held s1 = mset (deleted s) + held s + e) \<and>
     (\<not> m_delete_callback s \<longrightarrow> deleted s1 = deleted s)"
proof -
  from assms(1) have "held s1 = mset (List.map_filter m ks)" by (simp add: leaves_def held_def)
  with assms show ?thesis by (auto simp: leaves_def)
qed

lemma stored_present: "m_map s k = Some (v, r) \<Longrightarrow> stored s k = Some v"
  by (simp add: stored_def)

lemma insert_lru_tally:
  assumes "consistent s" "m_map s k = None" "insert_lru T s k v = Inr (b, s1)"
  shows "consistent s1 \<and> m_delete_callback s1 = m_delete_callback s \<and>
     (m_delete_callback s \<longrightarrow>
        mset (deleted s1) + held s1
        = mset (deleted s) + held s + {#Value_of_Key T (Key_of_Value T v)#}) \<and>
     (\<not> m_delete_callback s \<longrightarrow> deleted s1 = deleted s)"
proof -
  have k: "k \<notin> set (recency s)" using assms(1,2) by (rule consistent_None)
  show ?thesis
  proof (cases "length (recency s) = m_capacity s")
    case False
    from insert_lru_room[OF assms(1,2) False, of T v] assms(3) have
      l: "leaves s (k # recency s) ((stored s)(k \<mapsto> Value_of_Key T (Key_of_Value T v))) [] s1"
      by auto
    have "mset [] + mset (List.map_filter ((stored s)(k \<mapsto> Value_of_Key T (Key_of_Value T v)))
              (k # recency s))
        = held s + {#Value_of_Key T (Key_of_Value T v)#}"
      using tally_insert[of k "recency s" "stored s" "Value_of_Key T (Key_of_Value T v)"] k
      by (simp add: held_def)
    from leaves_tally[OF l this] show ?thesis .
  next
    case True
    show ?thesis
    proof (cases "recency s = []")
      case Nil: True
      with True assms insert_lru_zero[of s k T v] show ?thesis by simp
    next
      case False
      from insert_lru_full[OF assms(1,2) True False, of T v] assms(3) obtain old where
        old: "stored s (last (recency s)) = Some old" and
        l: "leaves s (k # butlast (recency s))
             ((stored s)(last (recency s) := None, k \<mapsto> Value_of_Key T (Key_of_Value T v))) [old] s1"
        by auto
      have "mset [old] + mset (List.map_filter
               ((stored s)(last (recency s) := None, k \<mapsto> Value_of_Key T (Key_of_Value T v)))
               (k # butlast (recency s)))
          = held s + {#Value_of_Key T (Key_of_Value T v)#}"
        using tally_insert_full[of "recency s" k "stored s" old "Value_of_Key T (Key_of_Value T v)"]
          consistent_distinct[OF assms(1)] False k old
        by (simp add: held_def)
      from leaves_tally[OF l this] show ?thesis .
    qed
  qed
qed

lemma front_tally:
  assumes "consistent s" "m_map s k = Some (v, r)"
    and "leaves s (k # removeAll k (recency s)) (stored s) [] s1"
  shows "consistent s1 \<and> m_delete_callback s1 = m_delete_callback s \<and>
     (m_delete_callback s \<longrightarrow> mset (deleted s1) + held s1 = mset (deleted s) + held s + {#}) \<and>
     (\<not> m_delete_callback s \<longrightarrow> deleted s1 = deleted s)"
proof -
  have "mset [] + mset (List.map_filter (stored s) (k # removeAll k (recency s))) = held s + {#}"
    using tally_front[of "recency s" k "stored s"]
      consistent_distinct[OF assms(1)] present_in_recency[OF assms(1,2)]
    by (simp add: held_def)
  from leaves_tally[OF assms(3) this] show ?thesis .
qed

lemma assign_tally:
  assumes "consistent s" "m_map s k = Some (old, r)"
    and "leaves s (k # removeAll k (recency s)) ((stored s)(k \<mapsto> v)) [old] s1"
  shows "consistent s1 \<and> m_delete_callback s1 = m_delete_callback s \<and>
     (m_delete_callback s \<longrightarrow> mset (deleted s1) + held s1 = mset (deleted s) + held s + {#v#}) \<and>
     (\<not> m_delete_callback s \<longrightarrow> deleted s1 = deleted s)"
proof -
  have "mset [old] + mset (List.map_filter ((stored s)(k \<mapsto> v)) (k # removeAll k (recency s)))
      = held s + {#v#}"
    using tally_assign[of "recency s" k "stored s" old v]
      consistent_distinct[OF assms(1)] present_in_recency[OF assms(1,2)] stored_present[OF assms(2)]
    by (simp add: held_def)
  from leaves_tally[OF assms(3) this] show ?thesis .
qed

lemma call_conservation:
  assumes "consistent s" "call T s c = Inr (ret, s1)"
  shows "consistent s1 \<and> m_delete_callback s1 = m_delete_callback s \<and>
     (m_delete_callback s \<longrightarrow>
        mset (deleted s1) + held s1 = mset (deleted s) + held s + entering T s c) \<and>
     (\<not> m_delete_callback s \<longrightarrow> deleted s1 = deleted s)"
proof (cases c)
  case (Insert k v)
  show ?thesis
  proof (cases "m_map s k")
    case None
    from assms(2) Insert obtain b where "insert_lru T s k v = Inr (b, s1)"
      by (auto split: sum.splits)
    from insert_lru_tally[OF assms(1) None this] None show ?thesis
      by (simp add: Insert contains_def)
  next
    case (Some p)
    with assms Insert show ?thesis by (auto simp: insert_lru_present contains_def)
  qed
next
  case (Insert_or_assign k v)
  show ?thesis
  proof (cases "m_map s k")
    case None
    from assms(2) Insert_or_assign None obtain b where "insert_lru T s k v = Inr (b, s1)"
      by (auto simp: insert_or_assign_absent split: sum.splits)
    from insert_lru_tally[OF assms(1) None this] None show ?thesis
      by (simp add: Insert_or_assign contains_def)
  next
    case (Some p)
    obtain old r where p: "m_map s k = Some (old, r)" using Some by (cases p) simp
    from insert_or_assign_present[OF assms(1) p, of T v] assms(2) Insert_or_assign
    have "leaves s (k # removeAll k (recency s)) ((stored s)(k \<mapsto> v)) [old] s1" by auto
    from assign_tally[OF assms(1) p this] p show ?thesis
      by (simp add: Insert_or_assign contains_def)
  qed
next
  case (Assign k v)
  show ?thesis
  proof (cases "m_map s k")
    case None
    with assms Assign show ?thesis by (auto simp: assign_absent contains_def)
  next
    case (Some p)
    obtain old r where p: "m_map s k = Some (old, r)" using Some by (cases p) simp
    from assign_leaves[OF assms(1) p, of v] assms(2) Assign
    have "leaves s (k # removeAll k (recency s)) ((stored s)(k \<mapsto> v)) [old] s1" by auto
    from assign_tally[OF assms(1) p this] p show ?thesis
      by (simp add: Assign contains_def)
  qed
next
  case (Get k)
  show ?thesis
  proof (cases "m_map s k")
    case None
    let ?v = "case m_create_callback s of Some creator \<Rightarrow> creator k | None \<Rightarrow> Value_init T"
    from assms(2) Get None obtain b s0 v' where
      i: "insert_lru T s k ?v = Inr (b, s0)" and m: "map_subscript T s0 k = (v', s1)"
      by (auto simp: get_def split: sum.splits prod.splits)
    have "\<exists>b'. insert_lru T s k ?v = Inr (b', s0) \<and> contains s0 k"
    proof (cases "length (recency s) = m_capacity s")
      case False
      from insert_lru_room[OF assms(1) None False, of T ?v] i show ?thesis
        by (auto simp: leaves_def contains_stored)
    next
      case True
      show ?thesis
      proof (cases "recency s = []")
        case Nil: True
        with True assms(1) None i insert_lru_zero[of s k T ?v] show ?thesis by simp
      next
        case False
        from insert_lru_full[OF assms(1) None True False, of T ?v] i show ?thesis
          by (auto simp: leaves_def contains_stored)
      qed
    qed
    then obtain x where "stored s0 k = Some x" by (auto simp: contains_stored)
    with m have "s1 = s0" by (simp add: map_subscript_present)
    with insert_lru_tally[OF assms(1) None i] None show ?thesis
      by (simp add: Get contains_def)
  next
    case (Some p)
    obtain v r where p: "m_map s k = Some (v, r)" using Some by (cases p) simp
    from get_present[OF assms(1) p, of T] assms(2) Get
    have "leaves s (k # removeAll k (recency s)) (stored s) [] s1" by auto
    from front_tally[OF assms(1) p this] p show ?thesis
      by (simp add: Get contains_def)
  qed
next
  case (Touch k)
  show ?thesis
  proof (cases "m_map s k")
    case None
    with assms Touch show ?thesis by (auto simp: touch_absent)
  next
    case (Some p)
    obtain v r where p: "m_map s k = Some (v, r)" using Some by (cases p) simp
    from touch_leaves[OF assms(1) p] assms(2) Touch
    have "leaves s (k # removeAll k (recency s)) (stored s) [] s1" by auto
    from front_tally[OF assms(1) p this] show ?thesis
      by (simp add: Touch)
  qed
next
  case (At k)
  with assms show ?thesis by (auto simp: at_def split: option.splits)
next
  case (Contains k)
  with assms show ?thesis by auto
next
  case (Erase k)
  show ?thesis
  proof (cases "m_map s k")
    case None
    with assms Erase show ?thesis by (auto simp: erase_absent)
  next
    case (Some p)
    obtain v r where p: "m_map s k = Some (v, r)" using Some by (cases p) simp
    from erase_leaves[OF assms(1) p] assms(2) Erase
    have l: "leaves s (removeAll k (recency s)) ((stored s)(k := None)) [v] s1" by auto
    have "mset [v] + mset (List.map_filter ((stored s)(k := None)) (removeAll k (recency s)))
        = held s + {#}"
      using tally_erase[of "recency s" k "stored s" v]
        consistent_distinct[OF assms(1)] present_in_recency[OF assms(1) p] stored_present[OF p]
      by (simp add: held_def)
    from leaves_tally[OF l this] show ?thesis by (simp add: Erase)
  qed
next
  case (Resize n)
  from resize_leaves[OF assms(1), of n] assms(2) Resize
  have l: "leaves (s\<lparr>m_capacity := n\<rparr>) (take n (recency s)) (stored s |` set (take n (recency s)))
       (List.map_filter (stored s) (rev (drop n (recency s)))) s1" by auto
  have "held (s\<lparr>m_capacity := n\<rparr>) = held s"
    by (simp add: held_def recency_capacity stored_capacity)
  with leaves_tally[OF l, of "{#}"] show ?thesis
    by (simp add: Resize tally_trim held_def)
next
  case Clear
  from clear_leaves[OF assms(1)] assms(2) Clear
  have l: "leaves s [] Map.empty (List.map_filter (stored s) (rev (recency s))) s1" by auto
  from leaves_tally[OF l, of "{#}"] show ?thesis
    by (simp add: Clear held_rev held_def)
qed

lemma calls_conservation:
  "consistent s \<Longrightarrow> m_delete_callback s \<Longrightarrow> calls T s cs = Inr s1 \<Longrightarrow>
   consistent s1 \<and> m_delete_callback s1 \<and>
   mset (deleted s1) + held s1 = mset (deleted s) + held s + entered T s cs"
proof (induction cs arbitrary: s)
  case Nil
  then show ?case by simp
next
  case (Cons c cs)
  from Cons.prems(3) obtain ret s0 where
    c: "call T s c = Inr (ret, s0)" and cs: "calls T s0 cs = Inr s1"
    by (auto split: sum.splits)
  from call_conservation[OF Cons.prems(1) c] Cons.prems(2) have
    c0: "consistent s0" and d0: "m_delete_callback s0" and
    e0: "mset (deleted s0) + held s0 = mset (deleted s) + held s + entering T s c"
    by simp_all
  from Cons.IH[OF c0 d0 cs] e0 c show ?case by (simp add: ac_simps)
qed

lemma stored_call_deletor: "stored (call_deletor s v) = stored s"
  by (simp add: stored_def call_deletor_def fun_eq_iff)

lemma destructor_deleted:
  "destructor order s =
     s\<lparr>deleted := deleted s @ (if m_delete_callback s then List.map_filter (stored s) order else [])\<rparr>"
proof (induction order arbitrary: s)
  case Nil
  then show ?case by simp
next
  case (Cons key order)
  show ?case
  proof (cases "m_map s key")
    case None
    then have "stored s key = None" by (simp add: stored_def)
    with None Cons.IH[of s] show ?thesis by simp
  next
    case (Some p)
    obtain v r where p: "p = (v, r)" by (cases p)
    with Some have st: "stored s key = Some v" by (simp add: stored_def)
    from Some p have "destructor (key # order) s = destructor order (call_deletor s v)" by simp
    also have "\<dots> = (call_deletor s v)\<lparr>deleted := deleted (call_deletor s v) @
        (if m_delete_callback (call_deletor s v)
         then List.map_filter (stored (call_deletor s v)) order else [])\<rparr>"
      by (rule Cons.IH)
    also have "\<dots> = s\<lparr>deleted := deleted s @
        (if m_delete_callback s then List.map_filter (stored s) (key # order) else [])\<rparr>"
      using st by (simp add: stored_call_deletor) (simp add: call_deletor_def)
    finally show ?thesis .
  qed
qed

lemma held_any_order:
  assumes "consistent s" "distinct order" "set order = dom (m_map s)"
  shows "mset (List.map_filter (stored s) order) = held s"
proof -
  have "set order = set (recency s)" using assms(1,3) by (simp add: consistent_dom)
  with assms(2) consistent_distinct[OF assms(1)] have "mset order = mset (recency s)"
    by (simp add: set_eq_iff_mset_eq_distinct)
  then show ?thesis unfolding held_def by (rule held_mset)
qed

lemma size_held: "consistent s \<Longrightarrow> size (held s) = size_lru s"
proof -
  assume c: "consistent s"
  have "\<forall>x\<in>set (recency s). stored s x \<noteq> None"
    using c by (simp add: contains_recency[symmetric] contains_stored)
  then have "filter (\<lambda>x. stored s x \<noteq> None) (recency s) = recency s"
    by (simp add: filter_id_conv)
  then show ?thesis using c by (simp add: held_def map_filter_def consistent_length)
qed

text \<open>On a consistent cache the values held are the values of the index.\<close>

lemma held_index:
  assumes "consistent s"
  shows "held s = image_mset (\<lambda>key. the (stored s key)) (mset_set (dom (m_map s)))"
proof -
  have "\<forall>x\<in>set (recency s). stored s x \<noteq> None"
    using assms by (simp add: contains_recency[symmetric] contains_stored)
  then have "filter (\<lambda>x. stored s x \<noteq> None) (recency s) = recency s"
    by (simp add: filter_id_conv)
  then have "held s = image_mset (\<lambda>key. the (stored s key)) (mset (recency s))"
    by (simp add: held_def map_filter_def comp_def)
  moreover have "mset_set (dom (m_map s)) = mset (recency s)"
    using consistent_distinct[OF assms] by (simp add: consistent_dom[OF assms] mset_set_set)
  ultimately show ?thesis by simp
qed

lemma LRU_Cache_held: "held (LRU_Cache sz creator deletor) = {#}"
  by (simp add: held_def LRU_Cache_recency)

text \<open>
  Claim C5.  With a deletor configured, the deletor is called exactly once for each value
  that leaves the cache, and for nothing else.

  \<^item> Over any sequence of calls on a fresh cache, the values passed to the deletor together
    with the values still held are, with multiplicity, the values handed over to the cache:
    each value that entered has either been passed to the deletor once or is still held.
    In numbers: calls of the deletor plus \<open>size()\<close> is the number of values that were put in.
  \<^item> The destructor, whatever the iteration order of the index, calls the deletor once for
    each value still held: after it every value that entered has been passed exactly once.
  \<^item> Each single call (overwrite by \<open>assign\<close> or \<open>insert_or_assign\<close>, eviction by an
    insertion, \<open>erase\<close>, \<open>resize\<close>, \<open>clear\<close>) obeys the same balance.
  \<^item> \<open>at\<close>, \<open>contains\<close>, \<open>touch\<close> and \<open>get\<close> of a present key do not call the deletor.
\<close>

theorem deletor_called_once_per_removed_value:
  "(calls T (LRU_Cache sz creator True) cs = Inr s \<longrightarrow>
      mset (deleted s) + held s = entered T (LRU_Cache sz creator True) cs \<and>
      length (deleted s) + size_lru s = size (entered T (LRU_Cache sz creator True) cs) \<and>
      (\<forall>order. distinct order \<and> set order = dom (m_map s) \<longrightarrow>
         mset (deleted (destructor order s)) = entered T (LRU_Cache sz creator True) cs)) \<and>
   (consistent s0 \<and> m_delete_callback s0 \<and> call T s0 c = Inr (ret, s1) \<longrightarrow>
      mset (deleted s1) + held s1 = mset (deleted s0) + held s0 + entering T s0 c) \<and>
   (consistent s0 \<and> call T s0 c = Inr (ret, s1) \<and>
      (c = At k \<or> c = Contains k \<or> c = Touch k \<or> (c = Get k \<and> contains s0 k)) \<longrightarrow>
      deleted s1 = deleted s0 \<and> held s1 = held s0)"
proof (intro conjI impI allI)
  let ?s = "LRU_Cache sz creator True :: ('a, 'b) cache"
  assume run: "calls T ?s cs = Inr s"
  have "m_delete_callback ?s" "deleted ?s = []" by (simp_all add: LRU_Cache_def)
  with calls_conservation[OF LRU_Cache_consistent _ run] have
    c: "consistent s" and d: "m_delete_callback s" and
    e: "mset (deleted s) + held s = entered T ?s cs"
    by (simp_all add: LRU_Cache_held)
  show "mset (deleted s) + held s = entered T ?s cs" by (rule e)
  from arg_cong[OF e, of size] show "length (deleted s) + size_lru s = size (entered T ?s cs)"
    by (simp add: size_held[OF c])
  fix order :: "'a list"
  assume "distinct order \<and> set order = dom (m_map s)"
  with held_any_order[OF c, of order] d e
  show "mset (deleted (destructor order s)) = entered T ?s cs"
    by (simp add: destructor_deleted)
next
  assume "consistent s0 \<and> m_delete_callback s0 \<and> call T s0 c = Inr (ret, s1)"
  with call_conservation[of s0 T c ret s1]
  show "mset (deleted s1) + held s1 = mset (deleted s0) + held s0 + entering T s0 c" by simp
next
  assume a: "consistent s0 \<and> call T s0 c = Inr (ret, s1) \<and>
      (c = At k \<or> c = Contains k \<or> c = Touch k \<or> (c = Get k \<and> contains s0 k))"
  then have c0: "consistent s0" and run: "call T s0 c = Inr (ret, s1)" by simp_all
  have "deleted s1 = deleted s0 \<and> held s1 = held s0"
  proof (cases "m_map s0 k")
    case None
    with a show ?thesis
      by (auto simp: at_def touch_absent contains_def)
  next
    case (Some p)
    obtain v r where p: "m_map s0 k = Some (v, r)" using Some by (cases p) simp
    have "leaves s0 (k # removeAll k (recency s0)) (stored s0) [] s1 \<or> s1 = s0"
      using a touch_leaves[OF c0 p] get_present[OF c0 p, of T] p
      by (auto simp: at_def)
    then show ?thesis
    proof
      assume l: "leaves s0 (k # removeAll k (recency s0)) (stored s0) [] s1"
      then have "held s1 = mset (List.map_filter (stored s0) (k # removeAll k (recency s0)))"
        by (simp add: leaves_def held_def)
      also have "\<dots> = held s0"
        unfolding held_def
        by (rule tally_front[OF consistent_distinct[OF c0] present_in_recency[OF c0 p]])
      finally show ?thesis using l by (simp add: leaves_def)
    qed simp
  qed
  then show "deleted s1 = deleted s0" "held s1 = held s0" by simp_all
qed

theorem deletor_called_once_per_removed_value_witness:
  "\<exists>s s0 s1 s2.
     calls (same_types (0::int)) (LRU_Cache 2 None True)
       [Insert (1::int) 10, Insert 2 20, Get 1, Insert 3 30, Assign 1 11, Erase 3, At 1, Touch 1,
        Insert_or_assign 1 12, Clear, Insert 4 40] = Inr s \<and>
     deleted s = [20, 10, 30, 11, 12] \<and> held s = {#40#} \<and>
     mset (deleted s) + held s = {#10, 20, 30, 11, 12, 40#} \<and>
     length (deleted s) + size_lru s = 6 \<and>
     distinct [4::int] \<and> set [4] = dom (m_map s) \<and>
     deleted (destructor [4] s) = [20, 10, 30, 11, 12, 40] \<and>
     mset (deleted (destructor [4] s)) = {#10, 20, 30, 11, 12, 40#} \<and>
     calls (same_types (0::int)) (LRU_Cache 2 None True) [Insert (1::int) 10, Insert 2 20] = Inr s0 \<and>
     consistent s0 \<and> m_delete_callback s0 \<and> contains s0 1 \<and>
     call (same_types 0) s0 (Insert 3 30) = Inr (Bool True, s1) \<and>
     mset (deleted s1) + held s1 = mset (deleted s0) + held s0 + {#30#} \<and>
     deleted s1 = [10] \<and>
     call (same_types 0) s0 (Get 1) = Inr (Ref 10, s2) \<and>
     deleted s2 = deleted s0 \<and> held s2 = held s0"
proof -
  let ?T = "same_types (0::int) :: (int, int) template_args"
  let ?i = "LRU_Cache 2 None True :: (int, int) cache"
  let ?cs = "[Insert (1::int) 10, Insert 2 20, Get 1, Insert 3 30, Assign 1 11, Erase 3, At 1,
        Touch 1, Insert_or_assign 1 12, Clear, Insert 4 40] :: (int, int) operation list"
  obtain s where run: "calls ?T ?i ?cs = Inr s" and d: "deleted s = [20, 10, 30, 11, 12]"
    and h: "held s = {#40#}" and dm: "set [4::int] = dom (m_map s)"
    and ds: "deleted (destructor [4] s) = [20, 10, 30, 11, 12, 40]"
    by (simp add: lru_defs held_def)
  have e: "entered ?T ?i ?cs = {#10, 20, 30, 11, 12, 40#}"
    by (simp add: lru_defs)
  have dist: "distinct [4::int]" by simp
  from deletor_called_once_per_removed_value[of ?T 2 None ?cs s, THEN conjunct1] run have
    t1: "mset (deleted s) + held s = entered ?T ?i ?cs"
        "length (deleted s) + size_lru s = size (entered ?T ?i ?cs)"
        "\<forall>order. distinct order \<and> set order = dom (m_map s) \<longrightarrow>
           mset (deleted (destructor order s)) = entered ?T ?i ?cs"
    by simp_all
  from t1(3) dist dm have t1': "mset (deleted (destructor [4] s)) = entered ?T ?i ?cs" by blast
  obtain s0 where run0: "calls ?T ?i [Insert 1 10, Insert 2 20] = Inr s0"
    and cb: "m_delete_callback s0" and c1: "contains s0 1"
    by (simp add: lru_defs)
  from calls_invariant[OF LRU_Cache_consistent _ run0] have cons: "consistent s0"
    by (simp add: LRU_Cache_recency)
  obtain s1 where i3: "call ?T s0 (Insert 3 30) = Inr (Bool True, s1)" and d1: "deleted s1 = [10]"
    using run0 by (auto simp: lru_defs)
  have e3: "entering ?T s0 (Insert 3 30) = {#30#}"
    using run0 by (auto simp: lru_defs)
  from deletor_called_once_per_removed_value[of ?T _ _ _ _ s0 "Insert 3 30" "Bool True" s1,
      THEN conjunct2, THEN conjunct1] cons cb i3 e3
  have t2: "mset (deleted s1) + held s1 = mset (deleted s0) + held s0 + {#30#}" by simp
  obtain s2 where g: "call ?T s0 (Get 1) = Inr (Ref 10, s2)"
    using run0 by (auto simp: lru_defs)
  from deletor_called_once_per_removed_value[of ?T _ _ _ _ s0 "Get 1" "Ref 10" s2 1,
      THEN conjunct2, THEN conjunct2] cons g c1
  have t3: "deleted s2 = deleted s0" "held s2 = held s0" by simp_all
  from run d h t1 e dist dm ds t1' run0 cons cb c1 i3 t2 d1 g t3 show ?thesis
    by (intro exI[of _ s] exI[of _ s0] exI[of _ s1] exI[of _ s2]) simp
qed

section \<open>Get or create\<close>

text \<open>
  What \<open>get\<close> does for an absent key when the capacity is positive: it returns the value made
  by the creator (or \<open>Value()\<close>) as the cache stores it, that is, after its passage through
  \<open>Key\<close>; the key becomes the most recently used, and the least recently used key is
  evicted when the cache was full.
\<close>

lemma get_absent_creates:
  assumes "consistent s" "m_map s k = None" "length (recency s) \<le> m_capacity s" "0 < m_capacity s"
    and "v = (case m_create_callback s of Some creator \<Rightarrow> creator k | None \<Rightarrow> Value_init T)"
  shows "\<exists>s1. get T s k = Inr (Value_of_Key T (Key_of_Value T v), s1) \<and> consistent s1 \<and>
           recency s1 = take (m_capacity s) (k # recency s) \<and>
           stored s1 k = Some (Value_of_Key T (Key_of_Value T v))"
proof -
  from insert_lru_recency[OF assms(1-4), of T v] obtain s1 where
    i: "insert_lru T s k v = Inr (True, s1)" and c1: "consistent s1" and
    r1: "recency s1 = take (m_capacity s) (k # recency s)" by blast
  have st: "stored s1 k = Some (Value_of_Key T (Key_of_Value T v))"
  proof (cases "length (recency s) = m_capacity s")
    case True
    with assms(4) have ne: "recency s \<noteq> []" by auto
    from insert_lru_full[OF assms(1,2) True ne, of T v] i show ?thesis
      by (auto simp: leaves_def)
  next
    case False
    from insert_lru_room[OF assms(1,2) False, of T v] i show ?thesis
      by (auto simp: leaves_def)
  qed
  from get_absent[OF assms(2) i[unfolded assms(5)] st[unfolded assms(5)]] c1 r1 st assms(5)
  show ?thesis by simp
qed

text \<open>The example of the specification: \<open>on_create = key \<rightarrow> key * 2\<close>, \<open>get(7)\<close> on an empty cache.\<close>

lemma get_creates_example:
  "\<exists>s. get (same_types (0::int)) (LRU_Cache 1 (Some (\<lambda>key. key * 2)) False) (7::int) = Inr (14, s) \<and>
       recency s = [7] \<and> stored s 7 = Some 14"
  by (simp add: lru_defs)

text \<open>
  An instantiation where \<open>Key\<close> is narrower than \<open>Value\<close>, \<open>LRU_Cache<uint8_t, uint32_t>\<close>: the
  value \<open>1000\<close> is stored, and returned, as \<open>1000 mod 256\<close>.
\<close>

lemma get_narrow_key:
  "\<exists>s. get narrow_key (LRU_Cache 1 (Some (\<lambda>key. 1000)) False) 7 = Inr (232, s) \<and>
       stored s 7 = Some 232"
  by (simp add: lru_defs narrow_key_def)

text \<open>
  Claim C6.  The claim is that \<open>get\<close> on an absent key always returns a value.  The code does
  otherwise on a cache of capacity \<open>0\<close>: every key is absent there, and the insertion that
  \<open>get\<close> makes for it reads the back of the empty list (the step that fails in claim C2), so
  \<open>get\<close> does not return, whatever the key and the creator.
\<close>

theorem get_capacity_zero:
  "get T (LRU_Cache 0 creator deletor) key = Inl Empty_List"
  by (simp add: get_def insert_lru_def LRU_Cache_def make_space_def size_lru_def erase_oldest_def)

section \<open>Peeks\<close>

text \<open>
  Claim C7.  \<open>at(key)\<close> and \<open>contains(key)\<close> are pure peeks: for every cache and every key
  they return the cache exactly as it was (list, index, capacity, callbacks and the log of
  deletor calls, so no callback has fired); \<open>at\<close> returns the stored value of a present key
  and nothing for an absent one, \<open>contains\<close> returns whether the key is in the index.
\<close>

theorem peeks_are_pure:
  "at s key = (stored s key, s) \<and>
   call T s (At key) = Inr (Optional (stored s key), s) \<and>
   contains s key = (key \<in> dom (m_map s)) \<and>
   call T s (Contains key) = Inr (Bool (key \<in> dom (m_map s)), s)"
  by (auto simp: at_def stored_def contains_def split: option.splits)

section \<open>Absent and present keys are signalled\<close>

text \<open>
  Claim C8.  A key that is absent is signalled and nothing changes: \<open>erase\<close> and \<open>assign\<close> on
  an absent key return \<open>false\<close> and the cache they leave is the cache they found (same list,
  same index, same size); \<open>insert\<close> on a present key returns \<open>false\<close> and leaves the cache as
  it was.  None of the three raises.
\<close>

theorem absence_is_signalled:
  "(\<not> contains s key \<longrightarrow> erase s key = Inr (False, s) \<and> assign s key val = Inr (False, s)) \<and>
   (contains s key \<longrightarrow> insert_lru T s key val = Inr (False, s))"
  by (cases "m_map s key") (simp_all add: contains_def erase_absent assign_absent insert_lru_present)

theorem absence_is_signalled_witness:
  "\<not> contains (LRU_Cache 3 None True :: (int, int) cache) 5 \<and>
   erase (LRU_Cache 3 None True :: (int, int) cache) 5 = Inr (False, LRU_Cache 3 None True) \<and>
   assign (LRU_Cache 3 None True :: (int, int) cache) 5 7 = Inr (False, LRU_Cache 3 None True) \<and>
   (\<exists>s. insert_lru (same_types 0) (LRU_Cache 3 None True :: (int, int) cache) 5 7 = Inr (True, s) \<and>
     contains s 5 \<and> insert_lru (same_types 0) s 5 8 = Inr (False, s))"
proof -
  let ?s0 = "LRU_Cache 3 None True :: (int, int) cache"
  have a: "\<not> contains ?s0 5" by (simp add: contains_def LRU_Cache_def)
  obtain s where s: "insert_lru (same_types 0) ?s0 5 7 = Inr (True, s)" and c: "contains s 5"
    by (simp add: insert_lru_def LRU_Cache_def make_space_def size_lru_def contains_def Let_def)
  from a absence_is_signalled[of ?s0 5 7 "same_types 0"]
  have "erase ?s0 5 = Inr (False, ?s0) \<and> assign ?s0 5 7 = Inr (False, ?s0)" by simp
  moreover from c absence_is_signalled[of s 5 8 "same_types 0"]
  have "insert_lru (same_types 0) s 5 8 = Inr (False, s)" by simp
  ultimately show ?thesis using a c s by simp
qed

section \<open>The constructor from an initializer list\<close>

text \<open>
  Claim C9.  The constructor that takes a sequence of pairs returns a cache whose capacity is
  the length of the sequence, duplicates counted, with no creator and no deletor; when
  the keys are distinct no pair is evicted: the cache holds every key, the last one listed
  being the most recently used.
\<close>

theorem initializer_list_constructor:
  "\<exists>s. LRU_Cache_il T il = Inr s \<and> capacity s = length il \<and>
     m_create_callback s = None \<and> \<not> m_delete_callback s \<and>
     (distinct (map fst il) \<longrightarrow> recency s = rev (map fst il) \<and> size_lru s = length il)"
proof -
  let ?s = "LRU_Cache (length il) None False :: ('a, 'b) cache"
  have "length (recency ?s) + length il \<le> m_capacity ?s"
    by (simp add: LRU_Cache_recency) (simp add: LRU_Cache_def)
  from load_leaves[OF LRU_Cache_consistent this, of T] obtain s1 where
    "load T ?s il = Inr s1" "consistent s1" "m_capacity s1 = m_capacity ?s"
    "m_create_callback s1 = m_create_callback ?s" "m_delete_callback s1 = m_delete_callback ?s"
    "distinct (map fst il) \<and> set (map fst il) \<inter> set (recency ?s) = {} \<longrightarrow>
        recency s1 = rev (map fst il) @ recency ?s \<and> deleted s1 = deleted ?s"
    by blast
  then show ?thesis
    by (auto simp: LRU_Cache_il_def capacity_def consistent_length LRU_Cache_recency)
       (simp_all add: LRU_Cache_def)
qed

theorem initializer_list_constructor_witness:
  "distinct (map fst [(1::int, 10::int), (2, 20), (3, 30)]) \<and>
   (\<exists>s. LRU_Cache_il (same_types 0) [(1::int, 10::int), (2, 20), (3, 30)] = Inr s \<and>
      capacity s = 3 \<and> recency s = [3, 2, 1] \<and> size_lru s = 3)"
  using initializer_list_constructor[of "same_types 0" "[(1::int, 10::int), (2, 20), (3, 30)]"]
  by auto

section \<open>Touching twice\<close>

lemma abstract_leaves:
  "leaves s ks m [] s1 \<Longrightarrow>
   abstract s1 = (ks, m, m_capacity s, m_create_callback s, m_delete_callback s, deleted s)"
  by (simp add: leaves_def abstract_def)

lemma contains_Some: "contains s k \<Longrightarrow> \<exists>v r. m_map s k = Some (v, r)"
  by (cases "m_map s k") (auto simp: contains_def)

text \<open>
  Claim C10.  \<open>touch\<close> is idempotent on the abstract state: on a consistent cache that holds
  \<open>k\<close>, a second \<open>touch(k)\<close> returns \<open>true\<close> and leaves the contents, the recency sequence, the
  capacity, the callbacks and the log of deletor calls as the first left them; and
  \<open>touch\<close> of the key that is already the most recently used returns \<open>true\<close> and leaves the
  abstract state, the recency sequence in particular, unchanged.
\<close>

theorem touch_idempotent:
  "(consistent s \<and> contains s k \<longrightarrow>
      (\<exists>s1 s2. touch s k = Inr (True, s1) \<and> touch s1 k = Inr (True, s2) \<and>
         abstract s2 = abstract s1 \<and> recency s2 = recency s1 \<and> stored s2 = stored s1)) \<and>
   (consistent s \<and> recency s = k # rest \<longrightarrow>
      (\<exists>s1. touch s k = Inr (True, s1) \<and> abstract s1 = abstract s \<and> recency s1 = recency s))"
proof (intro conjI impI)
  assume a: "consistent s \<and> contains s k"
  then obtain v r where m: "m_map s k = Some (v, r)" using contains_Some[of s k] by auto
  from touch_leaves[of s k v r] m a obtain s1 where
    t1: "touch s k = Inr (True, s1)" and
    l1: "leaves s (k # removeAll k (recency s)) (stored s) [] s1" by auto
  from l1 have c1: "consistent s1" and r1: "recency s1 = k # removeAll k (recency s)"
    and st1: "stored s1 = stored s" by (simp_all add: leaves_def)
  from st1 m have "stored s1 k = Some v" by (simp add: stored_def)
  then obtain r' where m1: "m_map s1 k = Some (v, r')" by (auto simp: stored_def)
  from touch_leaves[OF c1 m1] obtain s2 where
    t2: "touch s1 k = Inr (True, s2)" and
    l2: "leaves s1 (k # removeAll k (recency s1)) (stored s1) [] s2" by blast
  have "k # removeAll k (recency s1) = recency s1" by (simp add: r1)
  with abstract_leaves[OF l2] have "abstract s2 = abstract s1" "recency s2 = recency s1"
      "stored s2 = stored s1"
    using l2 by (simp_all add: abstract_def leaves_def)
  with t1 t2 show "\<exists>s1 s2. touch s k = Inr (True, s1) \<and> touch s1 k = Inr (True, s2) \<and>
         abstract s2 = abstract s1 \<and> recency s2 = recency s1 \<and> stored s2 = stored s1"
    by blast
next
  assume a: "consistent s \<and> recency s = k # rest"
  then have "k \<in> set (recency s)" by simp
  with a have "contains s k" by (simp add: contains_recency)
  then obtain v r where m: "m_map s k = Some (v, r)" using contains_Some[of s k] by auto
  from touch_leaves[of s k v r] m a obtain s1 where
    t1: "touch s k = Inr (True, s1)" and
    l1: "leaves s (k # removeAll k (recency s)) (stored s) [] s1" by auto
  from a have "distinct (k # rest)" using consistent_distinct[of s] by simp
  then have "removeAll k (recency s) = rest" using a by simp
  with a have "k # removeAll k (recency s) = recency s" by simp
  with abstract_leaves[OF l1] l1 have "abstract s1 = abstract s" "recency s1 = recency s"
    by (simp_all add: abstract_def leaves_def)
  with t1 show "\<exists>s1. touch s k = Inr (True, s1) \<and> abstract s1 = abstract s \<and> recency s1 = recency s"
    by blast
qed

theorem touch_idempotent_witness:
  "\<exists>s s1 s2 s3.
     calls (same_types (0::int)) (LRU_Cache 3 None True)
       [Insert (1::int) 10, Insert 2 20, Insert 3 30] = Inr s \<and>
     consistent s \<and> contains s 1 \<and> recency s = [3, 2, 1] \<and>
     touch s 1 = Inr (True, s1) \<and> recency s1 = [1, 3, 2] \<and>
     touch s1 1 = Inr (True, s2) \<and> abstract s2 = abstract s1 \<and> recency s2 = [1, 3, 2] \<and>
     touch s 3 = Inr (True, s3) \<and> abstract s3 = abstract s \<and> recency s3 = [3, 2, 1]"
proof -
  let ?T = "same_types (0::int) :: (int, int) template_args"
  let ?cs = "[Insert (1::int) 10, Insert 2 20, Insert 3 30] :: (int, int) operation list"
  obtain s where run: "calls ?T (LRU_Cache 3 None True) ?cs = Inr s"
    and c: "contains s 1" and r: "recency s = [3, 2, 1]"
    and m: "m_map s 1 = Some (10, 1)"
    by (simp add: lru_defs)
  from calls_invariant[OF LRU_Cache_consistent _ run] have cons: "consistent s"
    by (simp add: LRU_Cache_recency)
  from touch_idempotent[of s 1 "[2, 1]"] cons c obtain s1 s2 where
    t: "touch s 1 = Inr (True, s1)" "touch s1 1 = Inr (True, s2)" "abstract s2 = abstract s1"
       "recency s2 = recency s1"
    by auto
  from touch_leaves[OF cons m] t(1) have r1: "recency s1 = [1, 3, 2]"
    by (auto simp: leaves_def r)
  from touch_idempotent[of s 3 "[2, 1]"] cons r obtain s3 where
    t3: "touch s 3 = Inr (True, s3)" "abstract s3 = abstract s" "recency s3 = recency s"
    by auto
  from run cons c r t r1 t3 show ?thesis by auto
qed

end
